theory Spec2Isabelle
  imports Main "HOL-Library.Word"
begin

unbundle bit_operations_syntax

section \<open>Streams: the stdio calls the patcher makes\<close>

text \<open>
  A \<open>FILE*\<close> is modelled by the bytes of the file it is opened on, the stream
  position and the two stdio indicators. Every call that reaches the operating
  system (\<open>fread\<close>, \<open>fwrite\<close>, \<open>fseek\<close>, \<open>fstat\<close>) consumes one entry of the
  stream's fault schedule \<open>faults\<close>: \<open>None\<close> (or an exhausted schedule) lets the
  call succeed, \<open>Some k\<close> makes it fail after at most \<open>k\<close> bytes were transferred.
  The field \<open>failures\<close> counts the failed calls; no function of the program reads it.
  The three streams of one apply are assumed to be opened on three distinct files.
\<close>

type_synonym byte = "8 word"

record FILE =
  content :: "byte list"
  pos :: nat
  eof_ind :: bool
  err_ind :: bool
  faults :: "nat option list"
  failures :: nat

definition next_fault :: "FILE \<Rightarrow> nat option" where
  "next_fault f = (case faults f of [] \<Rightarrow> None | x # _ \<Rightarrow> x)"

definition served :: "FILE \<Rightarrow> FILE" where
  "served f = f\<lparr>faults := tl (faults f)\<rparr>"

definition failed :: "FILE \<Rightarrow> FILE" where
  "failed f = f\<lparr>faults := tl (faults f), failures := Suc (failures f)\<rparr>"

text \<open>
  \<open>fread(buf, 1, n, f)\<close>: the bytes delivered and the stream afterwards. A read that
  meets the end of the file delivers what is left and sets the end-of-file indicator;
  a failing read delivers fewer than \<open>n\<close> bytes and sets the error indicator.
\<close>

definition fread :: "FILE \<Rightarrow> nat \<Rightarrow> byte list \<times> FILE" where
  "fread f n =
     (case next_fault f of
        Some k \<Rightarrow>
          (let d = take (min k (n - 1)) (drop (pos f) (content f))
           in (d, (failed f)\<lparr>pos := pos f + length d, err_ind := True\<rparr>))
      | None \<Rightarrow>
          (let d = take n (drop (pos f) (content f))
           in (d, (served f)\<lparr>pos := pos f + length d,
                               eof_ind := (eof_ind f \<or> length d < n)\<rparr>)))"

text \<open>
  Writing \<open>d\<close> at position \<open>p\<close> overwrites what is there and extends the file; the gap
  left by a write beyond the end of the file reads as zero bytes (POSIX).
\<close>

definition write_at :: "byte list \<Rightarrow> nat \<Rightarrow> byte list \<Rightarrow> byte list" where
  "write_at c p d =
     (if d = [] then c
      else take p c @ replicate (p - length c) 0 @ d @ drop (p + length d) c)"

definition store :: "FILE \<Rightarrow> byte list \<Rightarrow> FILE" where
  "store f d = f\<lparr>content := write_at (content f) (pos f) d, pos := pos f + length d\<rparr>"

text \<open>\<open>fwrite(d, 1, length d, f)\<close>: the number of bytes written and the stream afterwards.\<close>

definition fwrite :: "FILE \<Rightarrow> byte list \<Rightarrow> nat \<times> FILE" where
  "fwrite f d =
     (case next_fault f of
        Some k \<Rightarrow>
          (let d' = take (min k (length d - 1)) d
           in (length d', (failed (store f d'))\<lparr>err_ind := True\<rparr>))
      | None \<Rightarrow> (length d, served (store f d)))"

text \<open>\<open>fseek(f, off, SEEK_SET)\<close>: \<open>0\<close> and the stream repositioned, or \<open>-1\<close>.\<close>

definition fseek :: "FILE \<Rightarrow> nat \<Rightarrow> int \<times> FILE" where
  "fseek f off =
     (case next_fault f of
        Some k \<Rightarrow> (- 1, failed f)
      | None \<Rightarrow> (0, (served f)\<lparr>pos := off, eof_ind := False\<rparr>))"

text \<open>\<open>fstat(fileno(f), &st)\<close>: \<open>st.st_size\<close>, or \<open>None\<close> when the call returns \<open>-1\<close>.\<close>

definition fstat :: "FILE \<Rightarrow> nat option \<times> FILE" where
  "fstat f =
     (case next_fault f of
        Some k \<Rightarrow> (None, failed f)
      | None \<Rightarrow> (Some (length (content f)), served f))"

definition ferror :: "FILE \<Rightarrow> bool" where
  "ferror f = err_ind f"

definition feof :: "FILE \<Rightarrow> bool" where
  "feof f = eof_ind f"

section \<open>ips.c\<close>

definition BUF_SIZE :: nat where
  "BUF_SIZE = 32768"

text \<open>
  \<open>copy_file\<close>: the \<open>while (1)\<close> loop, with \<open>input_file_size\<close> and \<open>total_read\<close> as
  arguments. A short read returns from the function before the \<open>fwrite\<close> below it.
  \<open>fileno\<close> does not fail on an open stream, so \<open>copy_file\<close> starts at \<open>fstat\<close>.
\<close>

function copy_loop :: "nat \<Rightarrow> nat \<Rightarrow> FILE \<Rightarrow> FILE \<Rightarrow> int \<times> FILE \<times> FILE" where
  "copy_loop input_file_size total_read input_file output_file =
     (case fread input_file BUF_SIZE of (buf, input_file') \<Rightarrow>
        if length buf < BUF_SIZE then
          (if total_read + length buf < input_file_size
           then (- 1, input_file', output_file)
           else (0, input_file', output_file))
        else
          (case fwrite output_file buf of (nwritten, output_file') \<Rightarrow>
             if nwritten < length buf then (- 1, input_file', output_file')
             else copy_loop input_file_size (total_read + length buf)
                    input_file' output_file'))"
  by pat_completeness auto
termination
proof (relation "measure (\<lambda>(sz, t, i, out). length (content i) - pos i)")
  show "wf (measure (\<lambda>(sz, t, i, out). length (content i) - pos i))" by simp
next
  fix input_file_size total_read :: nat and input_file output_file x2 y2 :: FILE
    and x1 :: "byte list"
  assume r: "(x1, x2) = fread input_file BUF_SIZE" and full: "\<not> length x1 < BUF_SIZE"
  have "length x1 \<le> length (content input_file) - pos input_file"
    using r by (auto simp: fread_def Let_def split: option.splits)
  moreover have "pos x2 = pos input_file + length x1" "content x2 = content input_file"
    using r by (auto simp: fread_def Let_def served_def failed_def split: option.splits)
  moreover have "0 < length x1" using full by (cases x1) (simp_all add: BUF_SIZE_def)
  ultimately have "length (content x2) - pos x2 < length (content input_file) - pos input_file"
    by arith
  then show "((input_file_size, total_read + length x1, x2, y2),
                    (input_file_size, total_read, input_file, output_file))
                   \<in> measure (\<lambda>(sz, t, i, out). length (content i) - pos i)"
    by simp
qed

declare copy_loop.simps [simp del]

definition copy_file :: "FILE \<Rightarrow> FILE \<Rightarrow> int \<times> FILE \<times> FILE" where
  "copy_file input_file output_file =
     (case fstat input_file of
        (None, input_file') \<Rightarrow> (- 1, input_file', output_file)
      | (Some input_file_size, input_file') \<Rightarrow>
          copy_loop input_file_size 0 input_file' output_file)"

datatype rombp_patch_err =
  PATCH_OK | PATCH_ERR_IO | PATCH_UNKNOWN_TYPE | PATCH_FAILED_TO_START
  | PATCH_INVALID_OUTPUT_SIZE | PATCH_INVALID_OUTPUT_CHECKSUM

definition ips_start :: "FILE \<Rightarrow> FILE \<Rightarrow> rombp_patch_err \<times> FILE \<times> FILE" where
  "ips_start input_file output_file =
     (case copy_file input_file output_file of (rc, input_file', output_file') \<Rightarrow>
        if rc \<noteq> 0 then (PATCH_ERR_IO, input_file', output_file')
        else (PATCH_OK, input_file', output_file'))"

text \<open>
  A stack buffer \<open>uint8_t buf[n]\<close> after \<open>fread\<close> has stored the bytes \<open>d\<close> at its
  start. The bytes behind a short read are indeterminate in C; they are only decoded
  on a path that needs a short read with neither stream indicator set, which
  \<open>fread\<close> never produces (lemma \<open>fread_short\<close>), and are fixed to zero here.
\<close>

definition buffer :: "nat \<Rightarrow> byte list \<Rightarrow> byte list" where
  "buffer n d = d @ replicate (n - length d) 0"

definition IPS_EXPECTED_MARKER :: "byte list" where
  "IPS_EXPECTED_MARKER = [0x50, 0x41, 0x54, 0x43, 0x48]"

definition IPS_MARKER_SIZE :: nat where
  "IPS_MARKER_SIZE = length IPS_EXPECTED_MARKER"

definition HUNK_PREAMBLE_BYTE_SIZE :: nat where
  "HUNK_PREAMBLE_BYTE_SIZE = 5"

definition be_24bit_int :: "byte list \<Rightarrow> 32 word" where
  "be_24bit_int buf =
     ((push_bit 16 (ucast (buf ! 0)) AND 0x00FF0000) OR
      (push_bit 8 (ucast (buf ! 1)) AND 0x0000FF00) OR
      (ucast (buf ! 2) AND 0x000000FF))"

definition be_16bit_int :: "byte list \<Rightarrow> 16 word" where
  "be_16bit_int buf =
     ucast (((push_bit 8 (ucast (buf ! 0)) AND 0xFF00) OR
             (ucast (buf ! 1) AND 0x00FF)) :: 32 word)"

definition RLE_PAYLOAD_BYTE_SIZE :: nat where
  "RLE_PAYLOAD_BYTE_SIZE = 3"

definition ips_get_rle_payload :: "FILE \<Rightarrow> int \<times> 32 word \<times> byte \<times> FILE" where
  "ips_get_rle_payload ips_file =
     (case fread ips_file RLE_PAYLOAD_BYTE_SIZE of (d, ips_file') \<Rightarrow>
        let buf = buffer RLE_PAYLOAD_BYTE_SIZE d in
        if length d < RLE_PAYLOAD_BYTE_SIZE \<and> ferror ips_file'
          then (- 1, 0, 0, ips_file')
        else if length d < RLE_PAYLOAD_BYTE_SIZE \<and> feof ips_file'
          then (- 1, 0, 0, ips_file')
        else (0, ucast (be_16bit_int buf), buf ! 2, ips_file'))"

datatype rombp_hunk_iter_status = HUNK_NONE | HUNK_NEXT | HUNK_DONE | HUNK_ERR_IO

record ips_hunk_header =
  offset :: "32 word"
  length_field :: "16 word"

text \<open>
  \<open>ips_next_hunk_header\<close>: the status, the decoded header (when the status is
  \<open>HUNK_NEXT\<close>) and the patch stream. The only test that ends the hunk stream is the
  short read at the end of the file; the bytes read are not compared with anything.
\<close>

definition ips_next_hunk_header ::
  "FILE \<Rightarrow> rombp_hunk_iter_status \<times> ips_hunk_header \<times> FILE" where
  "ips_next_hunk_header ips_file =
     (case fread ips_file HUNK_PREAMBLE_BYTE_SIZE of (d, ips_file') \<Rightarrow>
        let buf = buffer HUNK_PREAMBLE_BYTE_SIZE d in
        if length d < HUNK_PREAMBLE_BYTE_SIZE \<and> ferror ips_file'
          then (HUNK_ERR_IO, \<lparr>offset = 0, length_field = 0\<rparr>, ips_file')
        else if length d < HUNK_PREAMBLE_BYTE_SIZE \<and> feof ips_file'
          then (HUNK_DONE, \<lparr>offset = 0, length_field = 0\<rparr>, ips_file')
        else (HUNK_NEXT,
              \<lparr>offset = be_24bit_int buf, length_field = be_16bit_int (drop 3 buf)\<rparr>,
              ips_file'))"

text \<open>\<open>ips_write_rle_hunk\<close>: the \<open>for\<close> loop from \<open>i\<close>, one \<open>fwrite\<close> of one byte per turn.\<close>

function ips_write_rle_loop :: "nat \<Rightarrow> nat \<Rightarrow> byte \<Rightarrow> FILE \<Rightarrow> int \<times> FILE" where
  "ips_write_rle_loop i rle_hunk_length rle_value output_file =
     (if i < rle_hunk_length then
        (case fwrite output_file [rle_value] of (nwritten, output_file') \<Rightarrow>
           if nwritten = 0 then (- 1, output_file')
           else ips_write_rle_loop (i + 1) rle_hunk_length rle_value output_file')
      else (0, output_file))"
  by pat_completeness auto
termination
  by (relation "measure (\<lambda>(i, n, v, f). n - i)") auto

declare ips_write_rle_loop.simps [simp del]

definition ips_write_rle_hunk :: "FILE \<Rightarrow> 32 word \<Rightarrow> byte \<Rightarrow> int \<times> FILE" where
  "ips_write_rle_hunk output_file rle_hunk_length rle_value =
     ips_write_rle_loop 0 (unat rle_hunk_length) rle_value output_file"

text \<open>\<open>ips_write_hunk\<close>: the \<open>while (length_remaining > 0)\<close> loop.\<close>

function ips_write_hunk_loop :: "nat \<Rightarrow> FILE \<Rightarrow> FILE \<Rightarrow> int \<times> FILE \<times> FILE" where
  "ips_write_hunk_loop length_remaining ips_file output_file =
     (if length_remaining > 0 then
        (case fread ips_file (min BUF_SIZE length_remaining) of (buf, ips_file') \<Rightarrow>
           if length buf < min BUF_SIZE length_remaining \<and> ferror ips_file'
             then (- 1, ips_file', output_file)
           else if length buf < min BUF_SIZE length_remaining \<and> feof ips_file'
             then (- 1, ips_file', output_file)
           else
             (case fwrite output_file buf of (nwritten, output_file') \<Rightarrow>
                if nwritten < length buf then (- 1, ips_file', output_file')
                else ips_write_hunk_loop (length_remaining - nwritten)
                       ips_file' output_file'))
      else (0, ips_file, output_file))"
  by pat_completeness auto
termination
proof (relation "measure (\<lambda>(n, i, out). n)")
  show "wf (measure (\<lambda>(n, i, out). n))" by simp
next
  fix length_remaining nwritten :: nat and ips_file output_file ips_file' output_file' :: FILE
    and buf :: "byte list"
  assume pos: "0 < length_remaining"
    and r: "(buf, ips_file') = fread ips_file (min BUF_SIZE length_remaining)"
    and e: "\<not> (length buf < min BUF_SIZE length_remaining \<and> ferror ips_file')"
    and z: "\<not> (length buf < min BUF_SIZE length_remaining \<and> feof ips_file')"
    and w: "\<not> nwritten < length buf"
  have "length buf < min BUF_SIZE length_remaining \<longrightarrow> err_ind ips_file' \<or> eof_ind ips_file'"
    using r by (auto simp: fread_def Let_def served_def failed_def split: option.splits)
  then have "\<not> length buf < min BUF_SIZE length_remaining"
    using e z by (auto simp: ferror_def feof_def)
  then have "0 < nwritten" using pos w unfolding BUF_SIZE_def by arith
  then show "((length_remaining - nwritten, ips_file', output_file'),
              (length_remaining, ips_file, output_file)) \<in> measure (\<lambda>(n, i, out). n)"
    using pos by simp
qed

declare ips_write_hunk_loop.simps [simp del]

definition ips_write_hunk :: "FILE \<Rightarrow> FILE \<Rightarrow> 32 word \<Rightarrow> int \<times> FILE \<times> FILE" where
  "ips_write_hunk ips_file output_file hunk_length =
     ips_write_hunk_loop (unat hunk_length) ips_file output_file"

text \<open>
  \<open>ips_patch_hunk\<close> returns its \<open>rc\<close> and the output and patch streams; it makes no
  call on \<open>input_file\<close>.
\<close>

definition ips_patch_hunk ::
  "ips_hunk_header \<Rightarrow> FILE \<Rightarrow> FILE \<Rightarrow> FILE \<Rightarrow> int \<times> FILE \<times> FILE" where
  "ips_patch_hunk hunk_header input_file output_file ips_file =
     (case fseek output_file (unat (offset hunk_header)) of (rc, output_file1) \<Rightarrow>
        if rc = - 1 then (rc, output_file1, ips_file)
        else if length_field hunk_header = 0 then
          (case ips_get_rle_payload ips_file of
             (rc1, rle_hunk_length, rle_value, ips_file') \<Rightarrow>
               if rc1 < 0 then (rc1, output_file1, ips_file')
               else
                 (case ips_write_rle_hunk output_file1 rle_hunk_length rle_value of
                    (rc2, output_file2) \<Rightarrow>
                      if rc2 < 0 then (rc2, output_file2, ips_file')
                      else (0, output_file2, ips_file')))
        else
          (case ips_write_hunk ips_file output_file1 (ucast (length_field hunk_header)) of
             (rc1, ips_file', output_file2) \<Rightarrow>
               if rc1 < 0 then (rc1, output_file2, ips_file')
               else (0, output_file2, ips_file')))"

text \<open>
  \<open>ips_next\<close>. The test \<open>rc < 0\<close> selects \<open>HUNK_ERR_IO\<close>: the branch that remains
  after it and after \<open>rc == HUNK_DONE\<close> asserts \<open>rc == HUNK_NEXT\<close>.
\<close>

definition ips_next ::
  "FILE \<Rightarrow> FILE \<Rightarrow> FILE \<Rightarrow> rombp_hunk_iter_status \<times> FILE \<times> FILE \<times> FILE" where
  "ips_next input_file output_file ips_file =
     (case ips_next_hunk_header ips_file of (rc, hunk_header, ips_file1) \<Rightarrow>
        if rc = HUNK_ERR_IO then (HUNK_ERR_IO, input_file, output_file, ips_file1)
        else if rc = HUNK_DONE then (HUNK_DONE, input_file, output_file, ips_file1)
        else
          (case ips_patch_hunk hunk_header input_file output_file ips_file1 of
             (rc1, output_file', ips_file') \<Rightarrow>
               if rc1 < 0 then (HUNK_ERR_IO, input_file, output_file', ips_file')
               else (HUNK_NEXT, input_file, output_file', ips_file')))"

section \<open>The patch controller\<close>

text \<open>
  Modelled from the spec: \<open>patch_verify_marker\<close> (patch.c is not among the sources).
  Spec 4.3: the first bytes of the patch file must be the marker; a mismatch is
  signalled as \<open>PATCH_UNKNOWN_TYPE\<close>. Spec 4.1: fewer bytes than requested is an error.
\<close>

definition patch_verify_marker :: "FILE \<Rightarrow> byte list \<Rightarrow> nat \<Rightarrow> rombp_patch_err \<times> FILE" where
  "patch_verify_marker patch_file expected_header header_size =
     (case fread patch_file header_size of (d, patch_file') \<Rightarrow>
        if length d < header_size then (PATCH_ERR_IO, patch_file')
        else if d \<noteq> take header_size expected_header then (PATCH_UNKNOWN_TYPE, patch_file')
        else (PATCH_OK, patch_file'))"

definition ips_verify_marker :: "FILE \<Rightarrow> rombp_patch_err \<times> FILE" where
  "ips_verify_marker ips_file =
     patch_verify_marker ips_file IPS_EXPECTED_MARKER IPS_MARKER_SIZE"

text \<open>
  Modelled from the spec: \<open>bps_verify_marker\<close> (bps.c is not among the sources).
  Spec 4.4: the first 4 bytes must be ASCII \<open>BPS1\<close> (0x42 0x50 0x53 0x31).
\<close>

definition BPS_EXPECTED_MARKER :: "byte list" where
  "BPS_EXPECTED_MARKER = [0x42, 0x50, 0x53, 0x31]"

definition bps_verify_marker :: "FILE \<Rightarrow> rombp_patch_err \<times> FILE" where
  "bps_verify_marker bps_file =
     patch_verify_marker bps_file BPS_EXPECTED_MARKER (length BPS_EXPECTED_MARKER)"

datatype rombp_patch_type = PATCH_TYPE_UNKNOWN | PATCH_TYPE_IPS | PATCH_TYPE_BPS

text \<open>\<open>detect_patch_type\<close>; the test \<open>rc == 0\<close> is the test for \<open>PATCH_OK\<close>.\<close>

definition detect_patch_type :: "FILE \<Rightarrow> rombp_patch_type \<times> FILE" where
  "detect_patch_type patch_file =
     (case ips_verify_marker patch_file of (rc, patch_file1) \<Rightarrow>
        if rc = PATCH_OK then (PATCH_TYPE_IPS, patch_file1)
        else
          (case fseek patch_file1 0 of (rc2, patch_file2) \<Rightarrow>
             if rc2 = - 1 then (PATCH_TYPE_UNKNOWN, patch_file2)
             else
               (case bps_verify_marker patch_file2 of (rc3, patch_file3) \<Rightarrow>
                  if rc3 = PATCH_OK then (PATCH_TYPE_BPS, patch_file3)
                  else (PATCH_TYPE_UNKNOWN, patch_file3))))"

text \<open>
  The BPS decoder (bps.c) is not among the sources. The controller is modelled for
  any three functions \<open>bps_start\<close>, \<open>bps_next\<close>, \<open>bps_end\<close> over the streams they are
  passed and the \<open>rombp_patch_context\<close> union, whose type is the parameter \<open>'ctx\<close>.
\<close>

record 'ctx bps_decoder =
  bps_start :: "FILE \<Rightarrow> 'ctx \<Rightarrow> rombp_patch_err \<times> 'ctx \<times> FILE"
  bps_next :: "'ctx \<Rightarrow> FILE \<Rightarrow> FILE \<Rightarrow> FILE
                \<Rightarrow> rombp_hunk_iter_status \<times> 'ctx \<times> FILE \<times> FILE \<times> FILE"
  bps_end :: "'ctx \<Rightarrow> FILE \<Rightarrow> rombp_patch_err \<times> 'ctx \<times> FILE"

text \<open>\<open>start_patch\<close>: \<open>rc\<close>, the context, and the input, patch and output streams.\<close>

definition start_patch ::
  "'ctx bps_decoder \<Rightarrow> rombp_patch_type \<Rightarrow> 'ctx \<Rightarrow> FILE \<Rightarrow> FILE \<Rightarrow> FILE
     \<Rightarrow> int \<times> 'ctx \<times> FILE \<times> FILE \<times> FILE" where
  "start_patch bps patch_type ctx input_file patch_file output_file =
     (case patch_type of
        PATCH_TYPE_IPS \<Rightarrow>
          (case ips_start input_file output_file of (rc, input_file', output_file') \<Rightarrow>
             if rc \<noteq> PATCH_OK then (- 1, ctx, input_file', patch_file, output_file')
             else (0, ctx, input_file', patch_file, output_file'))
      | PATCH_TYPE_BPS \<Rightarrow>
          (case bps_start bps patch_file ctx of (rc, ctx', patch_file') \<Rightarrow>
             if rc \<noteq> PATCH_OK then (- 1, ctx', input_file, patch_file', output_file)
             else (0, ctx', input_file, patch_file', output_file))
      | PATCH_TYPE_UNKNOWN \<Rightarrow> (- 1, ctx, input_file, patch_file, output_file))"

definition end_patch ::
  "'ctx bps_decoder \<Rightarrow> rombp_patch_type \<Rightarrow> 'ctx \<Rightarrow> FILE \<Rightarrow> rombp_patch_err \<times> 'ctx \<times> FILE" where
  "end_patch bps patch_type ctx patch_file =
     (case patch_type of
        PATCH_TYPE_BPS \<Rightarrow> bps_end bps ctx patch_file
      | PATCH_TYPE_IPS \<Rightarrow> (PATCH_OK, ctx, patch_file)
      | PATCH_TYPE_UNKNOWN \<Rightarrow> (PATCH_OK, ctx, patch_file))"

definition next_hunk ::
  "'ctx bps_decoder \<Rightarrow> rombp_patch_type \<Rightarrow> 'ctx \<Rightarrow> FILE \<Rightarrow> FILE \<Rightarrow> FILE
     \<Rightarrow> rombp_hunk_iter_status \<times> 'ctx \<times> FILE \<times> FILE \<times> FILE" where
  "next_hunk bps patch_type patch_ctx input_file output_file patch_file =
     (case patch_type of
        PATCH_TYPE_IPS \<Rightarrow>
          (case ips_next input_file output_file patch_file of
             (st, input_file', output_file', patch_file') \<Rightarrow>
               (st, patch_ctx, input_file', output_file', patch_file'))
      | PATCH_TYPE_BPS \<Rightarrow> bps_next bps patch_ctx input_file output_file patch_file
      | PATCH_TYPE_UNKNOWN \<Rightarrow> (HUNK_NONE, patch_ctx, input_file, output_file, patch_file))"

text \<open>
  The operating system's answer to \<open>fopen\<close>: for a path, the stream that opening it
  yields (its bytes and fault schedule), or \<open>None\<close> when it cannot be opened. Mode
  \<open>w+\<close> creates or truncates the file.
\<close>

type_synonym os = "string \<Rightarrow> FILE option"

definition fopen :: "os \<Rightarrow> string \<Rightarrow> string \<Rightarrow> FILE option" where
  "fopen os path mode =
     (case os path of
        None \<Rightarrow> None
      | Some f \<Rightarrow>
          Some (f\<lparr>content := (if mode = ''w+'' then [] else content f),
                  pos := 0, eof_ind := False, err_ind := False\<rparr>))"

record rombp_patch_command =
  input_file :: string
  ips_file :: string
  output_file :: string

text \<open>\<open>open_patch_files\<close>: \<open>Inl\<close> the error returned, \<open>Inr\<close> the three streams opened
  (input, output, patch) when it returns \<open>PATCH_OK\<close>.\<close>

definition open_patch_files ::
  "os \<Rightarrow> rombp_patch_command \<Rightarrow> rombp_patch_err + (FILE \<times> FILE \<times> FILE)" where
  "open_patch_files os command =
     (case fopen os (input_file command) ''r'' of
        None \<Rightarrow> Inl PATCH_ERR_IO
      | Some inp \<Rightarrow>
          (case fopen os (output_file command) ''w+'' of
             None \<Rightarrow> Inl PATCH_ERR_IO
           | Some out \<Rightarrow>
               (case fopen os (ips_file command) ''r'' of
                  None \<Rightarrow> Inl PATCH_ERR_IO
                | Some ips \<Rightarrow> Inr (inp, out, ips))))"

text \<open>
  Modelled from the spec: the progress record and \<open>patch_status_init\<close>,
  \<open>patch_status_copy\<close> (patch.h and patch.c are not among the sources). Spec 3:
  \<open>{ hunk_count: u64, iter_status, err, is_done }\<close>; spec 5: the writer overwrites the
  shared record from its local copy under the lock, the reader copies it out.
  \<open>patch_status_copy src\<close> is the value that \<open>patch_status_copy(dst, src)\<close> leaves in
  \<open>*dst\<close>; the mutex of the record is not part of the model.
\<close>

record rombp_patch_status =
  iter_status :: rombp_hunk_iter_status
  err :: rombp_patch_err
  hunk_count :: "64 word"
  is_done :: bool

definition patch_status_init :: rombp_patch_status where
  "patch_status_init =
     \<lparr>iter_status = HUNK_NONE, err = PATCH_OK, hunk_count = 0, is_done = False\<rparr>"

definition patch_status_copy :: "rombp_patch_status \<Rightarrow> rombp_patch_status" where
  "patch_status_copy src =
     \<lparr>iter_status = iter_status src, err = err src,
      hunk_count = hunk_count src, is_done = is_done src\<rparr>"

text \<open>
  The shared record \<open>*status\<close> is modelled by the list of the values the worker has
  stored in it, oldest first: \<open>rombp_update_patch_status\<close> appends the copy it makes
  under the lock. \<open>rombp_read_patch_status\<close> gives the value a reader that holds the
  lock copies out: the newest value stored, or the caller's initial record \<open>init\<close> when
  the worker has stored nothing yet. In \<open>execute_patch\<close> neither pointer is \<open>NULL\<close>,
  and locking an initialised mutex does not fail.
\<close>

definition rombp_update_patch_status ::
  "rombp_patch_status list \<Rightarrow> rombp_patch_status \<Rightarrow> rombp_patch_status list" where
  "rombp_update_patch_status shared local = shared @ [patch_status_copy local]"

definition rombp_read_patch_status ::
  "rombp_patch_status \<Rightarrow> rombp_patch_status list \<Rightarrow> rombp_patch_status" where
  "rombp_read_patch_status init shared = patch_status_copy (last (init # shared))"

text \<open>The locals of \<open>execute_patch\<close> while its loop runs, and the shared record.\<close>

record 'ctx worker =
  local_status :: rombp_patch_status
  shared :: "rombp_patch_status list"
  patch_ctx :: 'ctx
  input_stream :: FILE
  output_stream :: FILE
  patch_stream :: FILE

text \<open>
  A run of the \<open>while (1)\<close> loop for at most \<open>fuel\<close> passes through its body:
  \<open>Running w\<close> when the passes are used up with the loop still at \<open>w\<close>, \<open>AtDone w\<close>
  when a pass has jumped to the label \<open>done\<close>.
\<close>

datatype 'a run = Running 'a | AtDone 'a

fun patch_loop ::
  "'ctx bps_decoder \<Rightarrow> rombp_patch_type \<Rightarrow> nat \<Rightarrow> 'ctx worker \<Rightarrow> 'ctx worker run" where
  "patch_loop bps patch_type 0 w = Running w"
| "patch_loop bps patch_type (Suc fuel) w =
     (case iter_status (local_status w) of
        HUNK_NEXT \<Rightarrow>
          (case next_hunk bps patch_type (patch_ctx w)
                  (input_stream w) (output_stream w) (patch_stream w) of
             (st, ctx', input_file', output_file', patch_file') \<Rightarrow>
               let ls = (local_status w)\<lparr>iter_status := st\<rparr>;
                   ls' = (if st = HUNK_NEXT then ls\<lparr>hunk_count := hunk_count ls + 1\<rparr> else ls)
               in patch_loop bps patch_type fuel
                    (w\<lparr>local_status := ls',
                       shared := rombp_update_patch_status (shared w) ls',
                       patch_ctx := ctx', input_stream := input_file',
                       output_stream := output_file', patch_stream := patch_file'\<rparr>))
      | HUNK_DONE \<Rightarrow>
          (case end_patch bps patch_type (patch_ctx w) (patch_stream w) of
             (e, ctx', patch_file') \<Rightarrow>
               AtDone (w\<lparr>local_status := (local_status w)\<lparr>err := e\<rparr>,
                         patch_ctx := ctx', patch_stream := patch_file'\<rparr>))
      | HUNK_ERR_IO \<Rightarrow>
          AtDone (w\<lparr>local_status := (local_status w)\<lparr>err := PATCH_ERR_IO\<rparr>\<rparr>)
      | HUNK_NONE \<Rightarrow> patch_loop bps patch_type fuel w)"

declare patch_loop.simps [simp del]

text \<open>
  What \<open>execute_patch\<close> has done when it returns: the value returned, the values
  stored in the shared record, and the three streams as they were closed (\<open>None\<close> when
  \<open>open_patch_files\<close> failed). \<open>Unfinished w\<close>: the loop is still running at \<open>w\<close>.
\<close>

datatype 'ctx exec =
  Unfinished "'ctx worker"
  | Returned rombp_patch_err "rombp_patch_status list" "(FILE \<times> FILE \<times> FILE) option"

text \<open>The values the worker has stored in the shared record so far.\<close>

fun published :: "'ctx exec \<Rightarrow> rombp_patch_status list" where
  "published (Unfinished w) = shared w"
| "published (Returned e h files) = h"

fun run_state :: "'a run \<Rightarrow> 'a" where
  "run_state (Running w) = w"
| "run_state (AtDone w) = w"

text \<open>
  The number of records in a list of stored records that were stored after an
  iteration that returned \<open>HUNK_NEXT\<close>; the stored hunk counts are these numbers.
\<close>

definition next_count :: "rombp_patch_status list \<Rightarrow> nat" where
  "next_count h = length (filter (\<lambda>s. iter_status s = HUNK_NEXT) h)"

definition counts_hunks :: "rombp_patch_status list \<Rightarrow> bool" where
  "counts_hunks h =
     (\<forall>k<length h. hunk_count (h ! k) = of_nat (next_count (take (Suc k) h)))"

text \<open>The code from the label \<open>done\<close> on.\<close>

definition done_label ::
  "rombp_patch_status \<Rightarrow> rombp_patch_status list \<Rightarrow> (FILE \<times> FILE \<times> FILE) option
     \<Rightarrow> 'ctx exec" where
  "done_label local shared_rec files =
     (let local' = local\<lparr>is_done := True\<rparr>
      in Returned (err local') (rombp_update_patch_status shared_rec local') files)"

definition execute_patch ::
  "'ctx bps_decoder \<Rightarrow> os \<Rightarrow> nat \<Rightarrow> 'ctx \<Rightarrow> rombp_patch_command \<Rightarrow> 'ctx exec" where
  "execute_patch bps os fuel ctx command =
     (case open_patch_files os command of
        Inl e \<Rightarrow>
          done_label (patch_status_init\<lparr>err := e, iter_status := HUNK_DONE\<rparr>) [] None
      | Inr (input_file0, output_file0, patch_file0) \<Rightarrow>
          (case detect_patch_type patch_file0 of (patch_type, patch_file1) \<Rightarrow>
             if patch_type = PATCH_TYPE_UNKNOWN then
               done_label
                 (patch_status_init\<lparr>err := PATCH_OK, iter_status := HUNK_DONE,
                                     err := PATCH_UNKNOWN_TYPE\<rparr>)
                 [] (Some (input_file0, output_file0, patch_file1))
             else
               (case start_patch bps patch_type ctx input_file0 patch_file1 output_file0 of
                  (rc, ctx', input_file', patch_file', output_file') \<Rightarrow>
                    if rc < 0 then
                      done_label
                        (patch_status_init\<lparr>err := PATCH_OK, iter_status := HUNK_DONE,
                                            err := PATCH_FAILED_TO_START\<rparr>)
                        [] (Some (input_file', output_file', patch_file'))
                    else
                      (case patch_loop bps patch_type fuel
                              \<lparr>local_status =
                                 patch_status_init\<lparr>err := PATCH_OK, iter_status := HUNK_NEXT\<rparr>,
                               shared = [], patch_ctx = ctx',
                               input_stream = input_file', output_stream = output_file',
                               patch_stream = patch_file'\<rparr> of
                         Running w \<Rightarrow> Unfinished w
                       | AtDone w \<Rightarrow>
                           done_label (local_status w) (shared w)
                             (Some (input_stream w, output_stream w, patch_stream w))))))"

section \<open>The IPS format and the examples of the specification\<close>

text \<open>
  Spec 3, as the specification words it: an IPS hunk is
  \<open>{ offset: u24, length: u16, body: Raw(bytes[length]) | Rle(count: u16, value: u8) }\<close>,
  \<open>length == 0\<close> marks RLE, integers are big-endian, offsets are absolute positions in
  the target, and later writes overlay earlier ones. \<open>hunk_encoding\<close> is the hunk as
  it stands in the patch stream, \<open>overlay\<close> the target after the hunk.
\<close>

datatype ips_hunk = Raw nat "byte list" | Rle nat nat byte

definition u24_be :: "nat \<Rightarrow> byte list" where
  "u24_be n = [of_nat (n div 65536), of_nat (n div 256), of_nat n]"

definition u16_be :: "nat \<Rightarrow> byte list" where
  "u16_be n = [of_nat (n div 256), of_nat n]"

fun hunk_encoding :: "ips_hunk \<Rightarrow> byte list" where
  "hunk_encoding (Raw off d) = u24_be off @ u16_be (length d) @ d"
| "hunk_encoding (Rle off n v) = u24_be off @ u16_be 0 @ u16_be n @ [v]"

fun hunk_wellformed :: "ips_hunk \<Rightarrow> bool" where
  "hunk_wellformed (Raw off d) = (off < 2 ^ 24 \<and> 0 < length d \<and> length d < 2 ^ 16)"
| "hunk_wellformed (Rle off n v) = (off < 2 ^ 24 \<and> n < 2 ^ 16)"

fun hunk_offset :: "ips_hunk \<Rightarrow> nat" where
  "hunk_offset (Raw off d) = off"
| "hunk_offset (Rle off n v) = off"

fun hunk_payload :: "ips_hunk \<Rightarrow> byte list" where
  "hunk_payload (Raw off d) = d"
| "hunk_payload (Rle off n v) = replicate n v"

definition overlay :: "byte list \<Rightarrow> ips_hunk \<Rightarrow> byte list" where
  "overlay target h = write_at target (hunk_offset h) (hunk_payload h)"

text \<open>The hunk \<open>h\<close> writes the target byte at position \<open>k\<close>.\<close>

definition hunk_covers :: "ips_hunk \<Rightarrow> nat \<Rightarrow> bool" where
  "hunk_covers h k = (hunk_offset h \<le> k \<and> k < hunk_offset h + length (hunk_payload h))"

text \<open>
  A stream as \<open>fopen\<close> leaves it on a file with the bytes \<open>bs\<close> and no fault
  scheduled; an operating system in which exactly the listed paths can be opened, on
  such streams; a BPS decoder that refuses every patch, for runs on IPS patches.
\<close>

definition stream_of :: "byte list \<Rightarrow> FILE" where
  "stream_of bs =
     \<lparr>content = bs, pos = 0, eof_ind = False, err_ind = False, faults = [], failures = 0\<rparr>"

definition os_of :: "(string \<times> byte list) list \<Rightarrow> os" where
  "os_of fs = map_of (map (\<lambda>(path, bs). (path, stream_of bs)) fs)"

definition bps_refusing :: "unit bps_decoder" where
  "bps_refusing =
     \<lparr>bps_start = (\<lambda>patch_file ctx. (PATCH_ERR_IO, ctx, patch_file)),
      bps_next = (\<lambda>ctx input_file output_file patch_file.
                    (HUNK_ERR_IO, ctx, input_file, output_file, patch_file)),
      bps_end = (\<lambda>ctx patch_file. (PATCH_OK, ctx, patch_file))\<rparr>"

section \<open>Streams on which no fault is scheduled\<close>

lemma patch_status_copy_id: "patch_status_copy s = s"
  by (simp add: patch_status_copy_def)

lemma served_quiet: "faults f = [] \<Longrightarrow> served f = f"
  by (simp add: served_def)

lemma next_fault_quiet: "faults f = [] \<Longrightarrow> next_fault f = None"
  by (simp add: next_fault_def)

lemma fread_quiet:
  "faults f = [] \<Longrightarrow>
   fread f n = (take n (drop (pos f) (content f)),
                f\<lparr>pos := pos f + min n (length (content f) - pos f),
                  eof_ind := (eof_ind f \<or> length (content f) - pos f < n)\<rparr>)"
  by (simp add: fread_def next_fault_quiet served_quiet Let_def min_def) 

lemma fwrite_quiet: "faults f = [] \<Longrightarrow> fwrite f d = (length d, store f d)"
  by (simp add: fwrite_def next_fault_quiet served_quiet store_def served_def)

lemma fseek_quiet: "faults f = [] \<Longrightarrow> fseek f off = (0, f\<lparr>pos := off, eof_ind := False\<rparr>)"
  by (simp add: fseek_def next_fault_quiet served_quiet)

lemma faults_store [simp]: "faults (store f d) = faults f"
  by (simp add: store_def)

lemma write_at_Nil [simp]: "write_at c p [] = c"
  by (simp add: write_at_def)

lemma length_write_at:
  "d \<noteq> [] \<Longrightarrow> length (write_at c p d) = max (length c) (p + length d)"
  by (auto simp: write_at_def)

lemma write_at_append:
  "write_at (write_at c p d1) (p + length d1) d2 = write_at c p (d1 @ d2)"
proof (cases "d1 = [] \<or> d2 = []")
  case True
  then show ?thesis by auto
next
  case False
  then have n: "d1 \<noteq> []" "d2 \<noteq> []" by auto
  define h where "h = take p c @ replicate (p - length c) 0"
  define r where "r = drop (p + length d1) c"
  have lh: "length h = p" by (auto simp: h_def)
  have w1: "write_at c p d1 = h @ d1 @ r"
    using n by (simp add: write_at_def h_def r_def)
  have t: "take (p + length d1) (h @ d1 @ r) = h @ d1"
    using lh by simp
  have d: "drop (p + length d1 + length d2) (h @ d1 @ r) = drop (length d2) r"
    using lh by simp
  have z: "replicate (p + length d1 - length (h @ d1 @ r)) (0::byte) = []"
    using lh by simp
  have "write_at (h @ d1 @ r) (p + length d1) d2 = h @ d1 @ d2 @ drop (length d2) r"
    using n t d z by (simp add: write_at_def)
  also have "\<dots> = write_at c p (d1 @ d2)"
    using n by (simp add: write_at_def h_def r_def add.commute add.left_commute)
  finally show ?thesis by (simp add: w1)
qed

lemma nth_write_at_in:
  "p \<le> k \<Longrightarrow> k < p + length d \<Longrightarrow> write_at c p d ! k = d ! (k - p)"
proof -
  assume a: "p \<le> k" "k < p + length d"
  then have n: "d \<noteq> []" by auto
  define h where "h = take p c @ replicate (p - length c) 0"
  have lh: "length h = p" by (auto simp: h_def)
  have "write_at c p d = h @ d @ drop (p + length d) c"
    using n by (simp add: write_at_def h_def)
  moreover have "(h @ d @ drop (p + length d) c) ! k = (d @ drop (p + length d) c) ! (k - p)"
    using a lh by (simp add: nth_append)
  moreover have "k - p < length d" using a by arith
  then have "(d @ drop (p + length d) c) ! (k - p) = d ! (k - p)"
    by (simp add: nth_append)
  ultimately show ?thesis by simp
qed

lemma nth_write_at_out:
  "k < p \<or> p + length d \<le> k \<Longrightarrow> k < length c \<Longrightarrow> write_at c p d ! k = c ! k"
proof (cases "d = []")
  case True
  then show ?thesis by simp
next
  case False
  assume a: "k < p \<or> p + length d \<le> k" and b: "k < length c"
  show ?thesis
  proof (cases "k < p")
    case True
    then show ?thesis using False b by (simp add: write_at_def nth_append)
  next
    case False
    with a have c: "p + length d \<le> k" by simp
    define h where "h = take p c @ replicate (p - length c) (0::byte)"
    have lh: "length h = p" by (auto simp: h_def)
    have w: "write_at c p d = h @ d @ drop (p + length d) c"
      using \<open>d \<noteq> []\<close> by (simp add: write_at_def h_def)
    have "(h @ d @ drop (p + length d) c) ! k = (d @ drop (p + length d) c) ! (k - p)"
      using c lh by (simp add: nth_append)
    also have "\<dots> = drop (p + length d) c ! (k - p - length d)"
    proof -
      have "\<not> k - p < length d" using c by arith
      then show ?thesis by (simp add: nth_append)
    qed
    also have "\<dots> = c ! k"
      using b c by simp
    finally show ?thesis by (simp add: w)
  qed
qed


lemma store_store: "store (store f d1) d2 = store f (d1 @ d2)"
  by (simp add: store_def write_at_append)

lemma store_Nil [simp]: "store f [] = f"
  by (simp add: store_def)

lemma ips_write_rle_loop_quiet:
  "faults f = [] \<Longrightarrow>
   ips_write_rle_loop i n v f = (0, store f (replicate (n - i) v))"
proof (induction i n v f rule: ips_write_rle_loop.induct)
  case (1 i n v f)
  show ?case
  proof (cases "i < n")
    case True
    have w: "fwrite f [v] = (1, store f [v])"
      using "1.prems" by (simp add: fwrite_quiet)
    have "ips_write_rle_loop i n v f = ips_write_rle_loop (i + 1) n v (store f [v])"
      using True w by (subst ips_write_rle_loop.simps) simp
    also have "\<dots> = (0, store (store f [v]) (replicate (n - (i + 1)) v))"
      using "1.IH" [OF True w [symmetric]] "1.prems" by simp
    also have "store (store f [v]) (replicate (n - (i + 1)) v) = store f (replicate (n - i) v)"
    proof -
      have "n - i = Suc (n - (i + 1))" using True by arith
      then show ?thesis by (simp add: store_store)
    qed
    finally show ?thesis .
  next
    case False
    then show ?thesis by (subst ips_write_rle_loop.simps) simp
  qed
qed

lemma ips_write_hunk_loop_quiet:
  "faults p = [] \<Longrightarrow> faults f = [] \<Longrightarrow> pos p + n \<le> length (content p) \<Longrightarrow>
   ips_write_hunk_loop n p f =
     (0, p\<lparr>pos := pos p + n\<rparr>, store f (take n (drop (pos p) (content p))))"
proof (induction n p f rule: ips_write_hunk_loop.induct)
  case (1 n p f)
  show ?case
  proof (cases "0 < n")
    case False
    then show ?thesis by (subst ips_write_hunk_loop.simps) simp
  next
    case True
    define m where "m = min BUF_SIZE n"
    define buf where "buf = take m (drop (pos p) (content p))"
    define p' where "p' = p\<lparr>pos := pos p + m\<rparr>"
    have mn: "m \<le> n" "0 < m" using True by (auto simp: m_def BUF_SIZE_def)
    have lb: "length buf = m" using mn "1.prems" by (simp add: buf_def)
    have r: "fread p m = (buf, p')"
      using "1.prems" mn by (simp add: fread_quiet buf_def p'_def min_def)
    have w: "fwrite f buf = (length buf, store f buf)"
      using "1.prems" by (simp add: fwrite_quiet)
    have step: "ips_write_hunk_loop n p f = ips_write_hunk_loop (n - m) p' (store f buf)"
      using True r w lb by (subst ips_write_hunk_loop.simps) (simp add: m_def [symmetric])
    have ih0: "ips_write_hunk_loop (n - length buf) p' (store f buf) =
        (0, p'\<lparr>pos := pos p' + (n - length buf)\<rparr>,
            store (store f buf) (take (n - length buf) (drop (pos p') (content p'))))"
    proof (rule "1.IH")
      show "0 < n" by (rule True)
      show "(buf, p') = fread p (min BUF_SIZE n)" using r by (simp add: m_def)
      show "\<not> (length buf < min BUF_SIZE n \<and> ferror p')" using lb by (simp add: m_def)
      show "\<not> (length buf < min BUF_SIZE n \<and> feof p')" using lb by (simp add: m_def)
      show "(length buf, store f buf) = fwrite f buf" using w by simp
      show "\<not> length buf < length buf" by simp
      show "faults p' = []" using "1.prems" by (simp add: p'_def)
      show "faults (store f buf) = []" using "1.prems" by simp
      show "pos p' + (n - length buf) \<le> length (content p')"
        using "1.prems" mn lb by (simp add: p'_def)
    qed
    have ih: "ips_write_hunk_loop (n - m) p' (store f buf) =
        (0, p'\<lparr>pos := pos p' + (n - m)\<rparr>,
            store (store f buf) (take (n - m) (drop (pos p') (content p'))))"
      using ih0 by (simp add: lb)
    have "buf @ take (n - m) (drop (pos p') (content p')) = take n (drop (pos p) (content p))"
    proof -
      have "take n (drop (pos p) (content p)) = take (m + (n - m)) (drop (pos p) (content p))"
        using mn by simp
      also have "\<dots> = buf @ take (n - m) (drop m (drop (pos p) (content p)))"
        unfolding buf_def by (rule take_add)
      finally show ?thesis by (simp add: p'_def add.commute)
    qed
    moreover have "p'\<lparr>pos := pos p' + (n - m)\<rparr> = p\<lparr>pos := pos p + n\<rparr>"
      using mn by (simp add: p'_def)
    ultimately show ?thesis using step ih by (simp add: store_store)
  qed
qed

lemma mask_byte2: "(0x00FF0000 :: 32 word) = push_bit 16 (mask 8)"
  by (simp add: mask_eq_exp_minus_1)
lemma mask_byte1: "(0xFF00 :: 32 word) = push_bit 8 (mask 8)"
  by (simp add: mask_eq_exp_minus_1)
lemma mask_byte0: "(0xFF :: 32 word) = mask 8"
  by (simp add: mask_eq_exp_minus_1)

lemma div_65536_drop_bit: "n div 65536 = drop_bit 16 (n::nat)"
  by (simp add: drop_bit_eq_div)
lemma div_256_drop_bit: "n div 256 = drop_bit 8 (n::nat)"
  by (simp add: drop_bit_eq_div)



lemma bit_nat_bound: "(n::nat) < 2 ^ m \<Longrightarrow> bit n k \<Longrightarrow> k < m"
proof (rule ccontr)
  assume a: "n < 2 ^ m" "bit n k" "\<not> k < m"
  then have "(2::nat) ^ m \<le> 2 ^ k" by simp
  then have "n < 2 ^ k" using a(1) by (rule less_le_trans [rotated])
  then have "n div 2 ^ k = 0" by simp
  then show False using a by (simp add: bit_iff_odd)
qed

lemma bit_below_24: "(n::nat) < 16777216 \<Longrightarrow> bit n k \<Longrightarrow> k < 24"
  using bit_nat_bound [of n 24 k] by simp

lemma bit_below_16: "(n::nat) < 65536 \<Longrightarrow> bit n k \<Longrightarrow> k < 16"
  using bit_nat_bound [of n 16 k] by simp

lemma be_24bit_int_u24_be: "n < 2 ^ 24 \<Longrightarrow> be_24bit_int (u24_be n @ xs) = of_nat n"
  apply (simp add: be_24bit_int_def u24_be_def mask_byte2 mask_byte1 mask_byte0
      div_65536_drop_bit div_256_drop_bit)
  apply (rule bit_eqI)
  apply (auto simp: bit_simps bit_of_nat_iff dest: bit_below_24)
  done

lemma be_16bit_int_u16_be: "n < 2 ^ 16 \<Longrightarrow> be_16bit_int (u16_be n @ xs) = of_nat n"
  apply (simp add: be_16bit_int_def u16_be_def mask_byte2 mask_byte1 mask_byte0
      div_65536_drop_bit div_256_drop_bit)
  apply (rule bit_eqI)
  apply (auto simp: bit_simps bit_of_nat_iff dest: bit_below_16)
  done

lemma unat_be_24bit_int: "n < 2 ^ 24 \<Longrightarrow> unat (be_24bit_int (u24_be n @ xs)) = n"
  by (simp add: be_24bit_int_u24_be unat_of_nat)


lemma unat_be_16bit_int: "n < 2 ^ 16 \<Longrightarrow> unat (ucast (be_16bit_int (u16_be n @ xs)) :: 32 word) = n"
  by (simp add: be_16bit_int_u16_be unsigned_ucast_eq unsigned_of_nat take_bit_nat_eq_self)

lemma be_16bit_int_zero_iff: "n < 2 ^ 16 \<Longrightarrow> (be_16bit_int (u16_be n @ xs) = 0) = (n = 0)"
proof -
  assume a: "n < 2 ^ 16"
  have "unat (of_nat n :: 16 word) = n" using a by (simp add: unat_of_nat)
  then have "((of_nat n :: 16 word) = 0) = (n = 0)"
    by (metis unat_0_iff)
  then show ?thesis using a by (simp add: be_16bit_int_u16_be)
qed

lemma length_u24 [simp]: "length (u24_be n) = 3"
  by (simp add: u24_be_def)
lemma length_u16 [simp]: "length (u16_be n) = 2"
  by (simp add: u16_be_def)

lemma ips_next_hunk_header_full:
  assumes q: "faults p = []"
    and d: "drop (pos p) (content p) = hd5 @ rest" and l: "length hd5 = 5"
  shows "ips_next_hunk_header p =
      (HUNK_NEXT, \<lparr>offset = be_24bit_int hd5, length_field = be_16bit_int (drop 3 hd5)\<rparr>,
       p\<lparr>pos := pos p + 5\<rparr>)"
proof -
  have len: "length (content p) - pos p = 5 + length rest"
    using arg_cong [OF d, of length] l by simp
  have "fread p 5 = (hd5, p\<lparr>pos := pos p + 5\<rparr>)"
    using q d l len by (simp add: fread_quiet)
  then show ?thesis
    using l by (simp add: ips_next_hunk_header_def HUNK_PREAMBLE_BYTE_SIZE_def buffer_def)
qed


lemma drop_prefix_take:
  "drop k xs = a @ b \<Longrightarrow> take (length a) (drop k xs) = a"
  by simp

lemma drop_prefix_drop:
  "drop k xs = a @ b \<Longrightarrow> drop (k + length a) xs = b"
  by (metis add.commute append_eq_conv_conj drop_drop)

lemma drop_prefix_length:
  "drop k xs = a @ b \<Longrightarrow> a \<noteq> [] \<Longrightarrow> k + length a + length b \<le> length xs"
proof -
  assume a: "drop k xs = a @ b" and n: "a \<noteq> []"
  have "length (drop k xs) = length a + length b" by (simp add: a)
  then have "length xs - k = length a + length b" by simp
  moreover have "0 < length a" using n by simp
  ultimately show ?thesis by arith
qed

lemma ips_get_rle_payload_full:
  assumes q: "faults p = []"
    and d: "drop (pos p) (content p) = u16_be n @ v # rest" and n: "n < 2 ^ 16"
  shows "ips_get_rle_payload p = (0, of_nat n, v, p\<lparr>pos := pos p + 3\<rparr>)"
proof -
  have d': "drop (pos p) (content p) = (u16_be n @ [v]) @ rest" using d by simp
  have len: "pos p + 3 \<le> length (content p)"
    using drop_prefix_length [OF d'] by simp
  have t: "take 3 (drop (pos p) (content p)) = u16_be n @ [v]"
    using drop_prefix_take [OF d'] by simp
  have r: "fread p 3 = (u16_be n @ [v], p\<lparr>pos := pos p + 3\<rparr>)"
    using q len t by (simp add: fread_quiet min_def)
  have "ucast (be_16bit_int (u16_be n @ [v])) = (of_nat n :: 32 word)"
    using n by (simp add: be_16bit_int_u16_be unsigned_of_nat take_bit_nat_eq_self)
  then show ?thesis
    using r by (simp add: ips_get_rle_payload_def RLE_PAYLOAD_BYTE_SIZE_def buffer_def nth_append)
qed

lemma ips_next_hunk:
  assumes qo: "faults out = []" and qp: "faults p = []"
    and wf: "hunk_wellformed h"
    and d: "drop (pos p) (content p) = hunk_encoding h @ rest"
  shows "ips_next inp out p =
      (HUNK_NEXT, inp,
       store (out\<lparr>pos := hunk_offset h, eof_ind := False\<rparr>) (hunk_payload h),
       p\<lparr>pos := pos p + length (hunk_encoding h)\<rparr>)"
proof (cases h)
  case (Raw off dat)
  define hd5 where "hd5 = u24_be off @ u16_be (length dat)"
  have l5: "length hd5 = 5" by (simp add: hd5_def)
  have b: "off < 2 ^ 24" "0 < length dat" "length dat < 2 ^ 16" using wf Raw by auto
  have d5: "drop (pos p) (content p) = hd5 @ (dat @ rest)"
    using d Raw by (simp add: hd5_def)
  have hdr: "ips_next_hunk_header p =
      (HUNK_NEXT, \<lparr>offset = be_24bit_int hd5, length_field = be_16bit_int (drop 3 hd5)\<rparr>,
       p\<lparr>pos := pos p + 5\<rparr>)"
    by (rule ips_next_hunk_header_full [OF qp d5 l5])
  have off: "unat (be_24bit_int hd5) = off" using b by (simp add: hd5_def unat_be_24bit_int)
  have lf: "be_16bit_int (drop 3 hd5) = of_nat (length dat)"
    using b be_16bit_int_u16_be [of "length dat" "[]"] by (simp add: hd5_def)
  have lf0: "be_16bit_int (drop 3 hd5) \<noteq> 0"
    using b be_16bit_int_zero_iff [of "length dat" "[]"] by (simp add: hd5_def)
  have ul: "unat (ucast (be_16bit_int (drop 3 hd5)) :: 32 word) = length dat"
    using b unat_be_16bit_int [of "length dat" "[]"] by (simp add: hd5_def)
  define p1 where "p1 = p\<lparr>pos := pos p + 5\<rparr>"
  define o1 where "o1 = out\<lparr>pos := off, eof_ind := False\<rparr>"
  have dp1: "drop (pos p1) (content p1) = dat @ rest"
    using drop_prefix_drop [OF d5] l5 by (simp add: p1_def)
  have len1: "pos p1 + length dat \<le> length (content p1)"
    using drop_prefix_length [OF dp1] b by simp
  have wr: "ips_write_hunk_loop (length dat) p1 o1 =
      (0, p1\<lparr>pos := pos p1 + length dat\<rparr>, store o1 dat)"
    using ips_write_hunk_loop_quiet [of p1 o1 "length dat"] qo qp len1 dp1
    by (simp add: p1_def o1_def)
  have sk: "fseek out off = (0, o1)" using qo by (simp add: fseek_quiet o1_def)
  have "ips_patch_hunk \<lparr>offset = be_24bit_int hd5, length_field = be_16bit_int (drop 3 hd5)\<rparr>
          inp out p1 = (0, store o1 dat, p1\<lparr>pos := pos p1 + length dat\<rparr>)"
    using sk wr lf0 ul off by (simp add: ips_patch_hunk_def ips_write_hunk_def)
  then show ?thesis
    using hdr Raw by (simp add: ips_next_def p1_def o1_def add.assoc)
next
  case (Rle off n v)
  define hd5 where "hd5 = u24_be off @ u16_be 0"
  have l5: "length hd5 = 5" by (simp add: hd5_def)
  have b: "off < 2 ^ 24" "n < 2 ^ 16" using wf Rle by auto
  have d5: "drop (pos p) (content p) = hd5 @ (u16_be n @ v # rest)"
    using d Rle by (simp add: hd5_def)
  have hdr: "ips_next_hunk_header p =
      (HUNK_NEXT, \<lparr>offset = be_24bit_int hd5, length_field = be_16bit_int (drop 3 hd5)\<rparr>,
       p\<lparr>pos := pos p + 5\<rparr>)"
    by (rule ips_next_hunk_header_full [OF qp d5 l5])
  have off: "unat (be_24bit_int hd5) = off" using b by (simp add: hd5_def unat_be_24bit_int)
  have lf0: "be_16bit_int (drop 3 hd5) = 0"
    using be_16bit_int_zero_iff [of 0 "[]"] by (simp add: hd5_def)
  define p1 where "p1 = p\<lparr>pos := pos p + 5\<rparr>"
  define o1 where "o1 = out\<lparr>pos := off, eof_ind := False\<rparr>"
  have dp1: "drop (pos p1) (content p1) = u16_be n @ v # rest"
    using drop_prefix_drop [OF d5] l5 by (simp add: p1_def)
  have rl: "ips_get_rle_payload p1 = (0, of_nat n, v, p1\<lparr>pos := pos p1 + 3\<rparr>)"
    by (rule ips_get_rle_payload_full [OF _ dp1 b(2)]) (simp add: p1_def qp)
  have un: "unat (of_nat n :: 32 word) = n" using b by (simp add: unat_of_nat)
  have wr: "ips_write_rle_hunk o1 (of_nat n) v = (0, store o1 (replicate n v))"
    using ips_write_rle_loop_quiet [of o1 0 n v] qo un
    by (simp add: ips_write_rle_hunk_def o1_def)
  have sk: "fseek out off = (0, o1)" using qo by (simp add: fseek_quiet o1_def)
  have "ips_patch_hunk \<lparr>offset = be_24bit_int hd5, length_field = be_16bit_int (drop 3 hd5)\<rparr>
          inp out p1 = (0, store o1 (replicate n v), p1\<lparr>pos := pos p1 + 3\<rparr>)"
    using sk rl wr lf0 off by (simp add: ips_patch_hunk_def)
  then show ?thesis
    using hdr Rle by (simp add: ips_next_def p1_def o1_def add.assoc)
qed

section \<open>The hunk loop on a well-formed patch\<close>

lemma ips_next_hunk_header_short:
  assumes "next_fault p = None" and "\<not> err_ind p" and "length (content p) - pos p < 5"
  shows "ips_next_hunk_header p =
     (HUNK_DONE, \<lparr>offset = 0, length_field = 0\<rparr>,
      (served p)\<lparr>pos := pos p + (length (content p) - pos p), eof_ind := True\<rparr>)"
  using assms
  by (simp add: ips_next_hunk_header_def fread_def HUNK_PREAMBLE_BYTE_SIZE_def ferror_def
      feof_def served_def Let_def min_def)

lemma ips_next_short:
  assumes "next_fault p = None" and "\<not> err_ind p" and "length (content p) - pos p < 5"
  shows "ips_next inp out p =
     (HUNK_DONE, inp, out,
      (served p)\<lparr>pos := pos p + (length (content p) - pos p), eof_ind := True\<rparr>)"
  by (simp add: ips_next_def ips_next_hunk_header_short [OF assms])

lemma patch_loop_next_ips:
  assumes "iter_status (local_status w) = HUNK_NEXT"
    and "ips_next (input_stream w) (output_stream w) (patch_stream w) = (st, i', o', p')"
  shows "patch_loop bps PATCH_TYPE_IPS (Suc n) w =
     patch_loop bps PATCH_TYPE_IPS n
       (w\<lparr>local_status :=
            (if st = HUNK_NEXT
             then (local_status w)\<lparr>iter_status := st,
                                   hunk_count := hunk_count (local_status w) + 1\<rparr>
             else (local_status w)\<lparr>iter_status := st\<rparr>),
          shared := shared w @
            [if st = HUNK_NEXT
             then (local_status w)\<lparr>iter_status := st,
                                   hunk_count := hunk_count (local_status w) + 1\<rparr>
             else (local_status w)\<lparr>iter_status := st\<rparr>],
          patch_ctx := patch_ctx w, input_stream := i', output_stream := o',
          patch_stream := p'\<rparr>)"
  using assms
  by (simp add: patch_loop.simps next_hunk_def rombp_update_patch_status_def
      patch_status_copy_id Let_def)

lemma patch_loop_done_ips:
  assumes "iter_status (local_status w) = HUNK_DONE"
  shows "patch_loop bps PATCH_TYPE_IPS (Suc n) w =
     AtDone (w\<lparr>local_status := (local_status w)\<lparr>err := PATCH_OK\<rparr>\<rparr>)"
  using assms by (simp add: patch_loop.simps end_patch_def)

lemma patch_loop_err:
  assumes "iter_status (local_status w) = HUNK_ERR_IO"
  shows "patch_loop bps t (Suc n) w =
     AtDone (w\<lparr>local_status := (local_status w)\<lparr>err := PATCH_ERR_IO\<rparr>\<rparr>)"
  using assms by (simp add: patch_loop.simps)


lemma content_store [simp]: "content (store f d) = write_at (content f) (pos f) d"
  by (simp add: store_def)

lemma patch_loop_hunks:
  assumes "iter_status (local_status w) = HUNK_NEXT"
    and "\<forall>h\<in>set hs. hunk_wellformed h"
    and "drop (pos (patch_stream w)) (content (patch_stream w))
           = concat (map hunk_encoding hs) @ tail"
    and "length tail < 5"
    and "faults (patch_stream w) = []" and "faults (output_stream w) = []"
    and "\<not> err_ind (patch_stream w)"
  shows "\<exists>w'. patch_loop bps PATCH_TYPE_IPS (length hs + 2) w = AtDone w' \<and>
       content (output_stream w') = foldl overlay (content (output_stream w)) hs \<and>
       err (local_status w') = PATCH_OK \<and>
       iter_status (local_status w') = HUNK_DONE \<and>
       hunk_count (local_status w') = hunk_count (local_status w) + of_nat (length hs) \<and>
       length (shared w') = length (shared w) + length hs + 1"
  using assms
proof (induction hs arbitrary: w)
  case Nil
  let ?p = "patch_stream w"
  have "length (drop (pos ?p) (content ?p)) = length tail"
    using Nil.prems(3) by simp
  then have len: "length (content ?p) - pos ?p < 5"
    using Nil.prems(4) by simp
  have nf: "next_fault ?p = None" using Nil.prems(5) by (rule next_fault_quiet)
  have nx: "ips_next (input_stream w) (output_stream w) ?p =
     (HUNK_DONE, input_stream w, output_stream w,
      (served ?p)\<lparr>pos := pos ?p + (length (content ?p) - pos ?p), eof_ind := True\<rparr>)"
    by (rule ips_next_short [OF nf Nil.prems(7) len])
  show ?case
    by (simp add: numeral_2_eq_2 patch_loop_next_ips [OF Nil.prems(1) nx]
        patch_loop_done_ips)
next
  case (Cons h hs)
  let ?p = "patch_stream w" and ?o = "output_stream w"
  have wf: "hunk_wellformed h" using Cons.prems(2) by simp
  have d: "drop (pos ?p) (content ?p) = hunk_encoding h @ (concat (map hunk_encoding hs) @ tail)"
    using Cons.prems(3) by simp
  define o1 where "o1 = store (?o\<lparr>pos := hunk_offset h, eof_ind := False\<rparr>) (hunk_payload h)"
  define p1 where "p1 = ?p\<lparr>pos := pos ?p + length (hunk_encoding h)\<rparr>"
  have nx: "ips_next (input_stream w) ?o ?p = (HUNK_NEXT, input_stream w, o1, p1)"
    unfolding o1_def p1_def by (rule ips_next_hunk [OF Cons.prems(6) Cons.prems(5) wf d])
  define w1 where "w1 = w\<lparr>local_status :=
         (local_status w)\<lparr>iter_status := HUNK_NEXT,
                           hunk_count := hunk_count (local_status w) + 1\<rparr>,
       shared := shared w @
         [(local_status w)\<lparr>iter_status := HUNK_NEXT,
                            hunk_count := hunk_count (local_status w) + 1\<rparr>],
       patch_ctx := patch_ctx w, input_stream := input_stream w, output_stream := o1,
       patch_stream := p1\<rparr>"
  have step: "patch_loop bps PATCH_TYPE_IPS (length (h # hs) + 2) w =
              patch_loop bps PATCH_TYPE_IPS (length hs + 2) w1"
    using patch_loop_next_ips [OF Cons.prems(1) nx, of bps "length hs + 2"]
    by (simp add: w1_def)
  have d1: "drop (pos (patch_stream w1)) (content (patch_stream w1))
        = concat (map hunk_encoding hs) @ tail"
    using drop_prefix_drop [OF d] by (simp add: w1_def p1_def)
  have "\<exists>w'. patch_loop bps PATCH_TYPE_IPS (length hs + 2) w1 = AtDone w' \<and>
       content (output_stream w') = foldl overlay (content (output_stream w1)) hs \<and>
       err (local_status w') = PATCH_OK \<and>
       iter_status (local_status w') = HUNK_DONE \<and>
       hunk_count (local_status w') = hunk_count (local_status w1) + of_nat (length hs) \<and>
       length (shared w') = length (shared w1) + length hs + 1"
  proof (rule Cons.IH)
    show "iter_status (local_status w1) = HUNK_NEXT" by (simp add: w1_def)
    show "\<forall>h\<in>set hs. hunk_wellformed h" using Cons.prems(2) by simp
    show "drop (pos (patch_stream w1)) (content (patch_stream w1))
        = concat (map hunk_encoding hs) @ tail" by (rule d1)
    show "length tail < 5" by (rule Cons.prems(4))
    show "faults (patch_stream w1) = []" using Cons.prems(5) by (simp add: w1_def p1_def)
    show "faults (output_stream w1) = []" using Cons.prems(6) by (simp add: w1_def o1_def)
    show "\<not> err_ind (patch_stream w1)" using Cons.prems(7) by (simp add: w1_def p1_def)
  qed
  moreover have "content (output_stream w1) = overlay (content ?o) h"
    by (simp add: w1_def o1_def overlay_def)
  moreover have "hunk_count (local_status w1) = hunk_count (local_status w) + 1"
    "length (shared w1) = length (shared w) + 1"
    by (simp_all add: w1_def)
  ultimately show ?case using step by (auto simp: add.assoc)
qed

section \<open>Overlapping hunks\<close>

lemma length_overlay: "length target \<le> length (overlay target h)"
  by (cases "hunk_payload h = []") (simp_all add: overlay_def length_write_at)

lemma foldl_overlay_untouched:
  "\<forall>g\<in>set hs. \<not> hunk_covers g k \<Longrightarrow> k < length c \<Longrightarrow>
   k < length (foldl overlay c hs) \<and> foldl overlay c hs ! k = c ! k"
proof (induction hs arbitrary: c)
  case Nil
  then show ?case by simp
next
  case (Cons g hs)
  have nc: "k < hunk_offset g \<or> hunk_offset g + length (hunk_payload g) \<le> k"
    using Cons.prems(1) by (auto simp: hunk_covers_def)
  have a: "overlay c g ! k = c ! k"
    unfolding overlay_def by (rule nth_write_at_out [OF nc Cons.prems(2)])
  have b: "k < length (overlay c g)"
    using length_overlay [of c g] Cons.prems(2) by simp
  have "k < length (foldl overlay (overlay c g) hs) \<and>
        foldl overlay (overlay c g) hs ! k = overlay c g ! k"
    using Cons.IH [of "overlay c g"] Cons.prems(1) b by simp
  then show ?case using a by simp
qed

lemma overlay_last_wins:
  assumes "hunk_covers h k" and "\<forall>g\<in>set hs2. \<not> hunk_covers g k"
  shows "foldl overlay c (hs1 @ h # hs2) ! k = hunk_payload h ! (k - hunk_offset h)"
proof -
  define c1 where "c1 = foldl overlay c hs1"
  have r: "hunk_offset h \<le> k" "k < hunk_offset h + length (hunk_payload h)"
    using assms(1) by (auto simp: hunk_covers_def)
  then have ne: "hunk_payload h \<noteq> []" by auto
  have a: "overlay c1 h ! k = hunk_payload h ! (k - hunk_offset h)"
    unfolding overlay_def by (rule nth_write_at_in [OF r])
  have b: "k < length (overlay c1 h)"
    using r ne by (simp add: overlay_def length_write_at)
  have "foldl overlay (overlay c1 h) hs2 ! k = overlay c1 h ! k"
    using foldl_overlay_untouched [OF assms(2) b] by simp
  then show ?thesis using a by (simp add: c1_def)
qed

text \<open>
  C6. IPS hunks need not be ordered or disjoint. When the hunk loop runs on a patch
  stream that holds the encodings of any well-formed hunks \<open>hs\<close> followed by fewer
  than five bytes, it reaches \<open>done\<close> after \<open>length hs + 2\<close> passes with every
  hunk written at its absolute offset, in patch order: the output is
  \<open>foldl overlay\<close> of the hunks over the output before the loop. Hence a byte covered by
  a hunk and by no later hunk is that hunk's byte: where hunks overlap, the later one
  is the one present. The witness is the specification's scenario 3, two hunks of
  length 2 at offsets 2 and 3: byte 3 of the target comes from the second.
\<close>

theorem C6_hunks_overlay_in_patch_order:
  assumes "iter_status (local_status w) = HUNK_NEXT"
    and "\<forall>h\<in>set hs. hunk_wellformed h"
    and "drop (pos (patch_stream w)) (content (patch_stream w))
           = concat (map hunk_encoding hs) @ tail"
    and "length tail < 5"
    and "faults (patch_stream w) = []" and "faults (output_stream w) = []"
    and "\<not> err_ind (patch_stream w)"
  shows "\<exists>w'. patch_loop bps PATCH_TYPE_IPS (length hs + 2) w = AtDone w' \<and>
       content (output_stream w') = foldl overlay (content (output_stream w)) hs \<and>
       (\<forall>hs1 h hs2 k. hs = hs1 @ h # hs2 \<and> hunk_covers h k \<and>
                      (\<forall>g\<in>set hs2. \<not> hunk_covers g k)
          \<longrightarrow> content (output_stream w') ! k = hunk_payload h ! (k - hunk_offset h))"
proof -
  obtain w' where w': "patch_loop bps PATCH_TYPE_IPS (length hs + 2) w = AtDone w'"
      "content (output_stream w') = foldl overlay (content (output_stream w)) hs"
    using patch_loop_hunks [OF assms, of bps] by blast
  have "\<forall>hs1 h hs2 k. hs = hs1 @ h # hs2 \<and> hunk_covers h k \<and>
                      (\<forall>g\<in>set hs2. \<not> hunk_covers g k)
          \<longrightarrow> content (output_stream w') ! k = hunk_payload h ! (k - hunk_offset h)"
  proof (intro allI impI, elim conjE)
    fix hs1 h hs2 k
    assume e: "hs = hs1 @ h # hs2" and cv: "hunk_covers h k"
      and un: "\<forall>g\<in>set hs2. \<not> hunk_covers g k"
    show "content (output_stream w') ! k = hunk_payload h ! (k - hunk_offset h)"
      unfolding w'(2) e by (rule overlay_last_wins [OF cv un])
  qed
  then show ?thesis using w' by blast
qed

theorem C6_hunks_overlay_in_patch_order_witness:
  "\<exists>w'. patch_loop bps_refusing PATCH_TYPE_IPS 4
      \<lparr>local_status = patch_status_init\<lparr>iter_status := HUNK_NEXT\<rparr>,
        shared = [], patch_ctx = (),
        input_stream = stream_of [0, 0, 0, 0, 0, 0],
        output_stream = stream_of [0, 0, 0, 0, 0, 0],
        patch_stream = (stream_of [0x50, 0x41, 0x54, 0x43, 0x48,
                          0, 0, 2, 0, 2, 0x11, 0x22, 0, 0, 3, 0, 2, 0x33, 0x44,
                          0x45, 0x4F, 0x46])\<lparr>pos := 5\<rparr>\<rparr> = AtDone w' \<and>
     content (output_stream w') = [0, 0, 0x11, 0x33, 0x44, 0] \<and>
     content (output_stream w') ! 3 = hunk_payload (Raw 3 [0x33, 0x44]) ! 0"
proof -
  let ?hs = "[Raw 2 [0x11, 0x22], Raw 3 [0x33, 0x44]]"
  let ?w = "\<lparr>local_status = patch_status_init\<lparr>iter_status := HUNK_NEXT\<rparr>,
        shared = [], patch_ctx = (),
        input_stream = stream_of [0, 0, 0, 0, 0, 0],
        output_stream = stream_of [0, 0, 0, 0, 0, 0],
        patch_stream = (stream_of [0x50, 0x41, 0x54, 0x43, 0x48,
                          0, 0, 2, 0, 2, 0x11, 0x22, 0, 0, 3, 0, 2, 0x33, 0x44,
                          0x45, 0x4F, 0x46])\<lparr>pos := 5\<rparr>\<rparr>"
  have h1: "iter_status (local_status ?w) = HUNK_NEXT" by simp
  have h2: "\<forall>h\<in>set ?hs. hunk_wellformed h" by simp
  have h3: "drop (pos (patch_stream ?w)) (content (patch_stream ?w))
       = concat (map hunk_encoding ?hs) @ [0x45, 0x4F, 0x46]"
    by (simp add: stream_of_def u24_be_def u16_be_def)
  have h4: "length [0x45, 0x4F, 0x46 :: byte] < 5" by simp
  have h5: "faults (patch_stream ?w) = []" "faults (output_stream ?w) = []"
    "\<not> err_ind (patch_stream ?w)" by (simp_all add: stream_of_def)
  have ov: "foldl overlay (content (output_stream ?w)) ?hs = [0, 0, 0x11, 0x33, 0x44, 0]"
    by (simp add: overlay_def write_at_def stream_of_def)
  obtain w' where a: "patch_loop bps_refusing PATCH_TYPE_IPS (length ?hs + 2) ?w = AtDone w'"
    and b: "content (output_stream w') = foldl overlay (content (output_stream ?w)) ?hs"
    and c: "\<forall>hs1 h hs2 k. ?hs = hs1 @ h # hs2 \<and> hunk_covers h k \<and>
                      (\<forall>g\<in>set hs2. \<not> hunk_covers g k)
          \<longrightarrow> content (output_stream w') ! k = hunk_payload h ! (k - hunk_offset h)"
    using C6_hunks_overlay_in_patch_order [OF h1 h2 h3 h4 h5, of bps_refusing] by blast
  have d: "content (output_stream w') ! 3 = hunk_payload (Raw 3 [0x33, 0x44]) ! 0"
    using c [rule_format, of "[Raw 2 [0x11, 0x22]]" "Raw 3 [0x33, 0x44]" "[]" 3]
    by (simp add: hunk_covers_def)
  have n4: "length ?hs + 2 = 4" by simp
  have a': "patch_loop bps_refusing PATCH_TYPE_IPS 4 ?w = AtDone w'"
    using a unfolding n4 .
  have b': "content (output_stream w') = [0, 0, 0x11, 0x33, 0x44, 0]"
    using b ov by simp
  show ?thesis using a' b' d by blast
qed


section \<open>Single hunks and the end of the hunk stream\<close>

text \<open>
  C5. For every offset (a u24), every length \<open>len > 0\<close> (a u16) and every byte
  \<open>v\<close>: on fault-free streams, \<open>ips_next\<close> on a patch stream that stands at the RLE
  hunk (offset, length field 0, \<open>rle_length = len\<close>, \<open>v\<close>) and \<open>ips_next\<close> on a patch
  stream that stands at the raw hunk (offset, \<open>length = len\<close>) with \<open>len\<close> copies of
  \<open>v\<close> as payload both return \<open>HUNK_NEXT\<close> and leave the same output stream, whose
  content is the old content with \<open>len\<close> copies of \<open>v\<close> written at the offset. The
  witness is the specification's scenario 2.
\<close>

theorem C5_rle_hunk_equals_raw_hunk_of_copies:
  assumes "off < 2 ^ 24" and "0 < len" and "len < 2 ^ 16"
    and "faults out = []" and "faults p_rle = []" and "faults p_raw = []"
    and "drop (pos p_rle) (content p_rle) = u24_be off @ [0, 0] @ u16_be len @ [v] @ rest_rle"
    and "drop (pos p_raw) (content p_raw)
           = u24_be off @ u16_be len @ replicate len v @ rest_raw"
  shows "\<exists>out' p1 p2.
           ips_next inp out p_rle = (HUNK_NEXT, inp, out', p1) \<and>
           ips_next inp out p_raw = (HUNK_NEXT, inp, out', p2) \<and>
           content out' = write_at (content out) off (replicate len v)"
proof -
  have e1: "drop (pos p_rle) (content p_rle) = hunk_encoding (Rle off len v) @ rest_rle"
    using assms(7) by (simp add: u16_be_def)
  have e2: "drop (pos p_raw) (content p_raw)
              = hunk_encoding (Raw off (replicate len v)) @ rest_raw"
    using assms(8) by simp
  have w1: "hunk_wellformed (Rle off len v)" using assms(1,3) by simp
  have w2: "hunk_wellformed (Raw off (replicate len v))" using assms(1,2,3) by simp
  have "ips_next inp out p_rle =
      (HUNK_NEXT, inp, store (out\<lparr>pos := off, eof_ind := False\<rparr>) (replicate len v),
       p_rle\<lparr>pos := pos p_rle + length (hunk_encoding (Rle off len v))\<rparr>)"
    using ips_next_hunk [OF assms(4) assms(5) w1 e1, of inp] by simp
  moreover have "ips_next inp out p_raw =
      (HUNK_NEXT, inp, store (out\<lparr>pos := off, eof_ind := False\<rparr>) (replicate len v),
       p_raw\<lparr>pos := pos p_raw + length (hunk_encoding (Raw off (replicate len v)))\<rparr>)"
    using ips_next_hunk [OF assms(4) assms(6) w2 e2, of inp] by simp
  ultimately show ?thesis by simp
qed


theorem C5_rle_hunk_equals_raw_hunk_of_copies_witness:
  "\<exists>out' p1 p2.
     ips_next (stream_of []) (stream_of [0, 0, 0, 0, 0, 0, 0, 0])
        (stream_of [0, 0, 1, 0, 0, 0, 4, 0xFF, 0x45, 0x4F, 0x46])
       = (HUNK_NEXT, stream_of [], out', p1) \<and>
     ips_next (stream_of []) (stream_of [0, 0, 0, 0, 0, 0, 0, 0])
        (stream_of [0, 0, 1, 0, 4, 0xFF, 0xFF, 0xFF, 0xFF, 0x45, 0x4F, 0x46])
       = (HUNK_NEXT, stream_of [], out', p2) \<and>
     content out' = [0, 0xFF, 0xFF, 0xFF, 0xFF, 0, 0, 0]"
proof -
  have h: "(1::nat) < 2 ^ 24" "(0::nat) < 4" "(4::nat) < 2 ^ 16"
    "faults (stream_of [0, 0, 0, 0, 0, 0, 0, 0]) = []"
    "faults (stream_of [0, 0, 1, 0, 0, 0, 4, 0xFF, 0x45, 0x4F, 0x46]) = []"
    "faults (stream_of [0, 0, 1, 0, 4, 0xFF, 0xFF, 0xFF, 0xFF, 0x45, 0x4F, 0x46]) = []"
    by (simp_all add: stream_of_def)
  have r4: "replicate 4 (0xFF :: byte) = [0xFF, 0xFF, 0xFF, 0xFF]"
    by (simp add: numeral_eq_Suc)
  have d1: "drop (pos (stream_of [0, 0, 1, 0, 0, 0, 4, 0xFF, 0x45, 0x4F, 0x46]))
       (content (stream_of [0, 0, 1, 0, 0, 0, 4, 0xFF, 0x45, 0x4F, 0x46]))
     = u24_be 1 @ [0, 0] @ u16_be 4 @ [0xFF] @ [0x45, 0x4F, 0x46]"
    by (simp add: stream_of_def u24_be_def u16_be_def)
  have d2: "drop (pos (stream_of [0, 0, 1, 0, 4, 0xFF, 0xFF, 0xFF, 0xFF, 0x45, 0x4F, 0x46]))
       (content (stream_of [0, 0, 1, 0, 4, 0xFF, 0xFF, 0xFF, 0xFF, 0x45, 0x4F, 0x46]))
     = u24_be 1 @ u16_be 4 @ replicate 4 0xFF @ [0x45, 0x4F, 0x46]"
    by (simp add: stream_of_def u24_be_def u16_be_def r4)
  have w: "write_at (content (stream_of [0, 0, 0, 0, 0, 0, 0, 0])) 1 (replicate 4 0xFF)
      = [0, 0xFF, 0xFF, 0xFF, 0xFF, 0, 0, 0]"
    by (simp add: stream_of_def write_at_def r4)
  show ?thesis
    using C5_rle_hunk_equals_raw_hunk_of_copies [OF h d1 d2, of "stream_of []"]
    unfolding w .
qed


lemma ips_next_hunk_header_five:
  assumes "next_fault p = None" and "5 \<le> length (content p) - pos p"
  shows "\<exists>hdr p1. ips_next_hunk_header p = (HUNK_NEXT, hdr, p1)"
  using assms
  by (simp add: ips_next_hunk_header_def fread_def HUNK_PREAMBLE_BYTE_SIZE_def Let_def min_def)

lemma ips_next_not_none: "fst (ips_next inp out p) \<noteq> HUNK_NONE"
  by (simp add: ips_next_def ips_next_hunk_header_def Let_def split: prod.splits)

lemma ips_next_full_preamble:
  assumes "next_fault p = None" and "5 \<le> length (content p) - pos p"
  shows "fst (ips_next inp out p) \<noteq> HUNK_DONE"
proof -
  obtain hdr p1 where "ips_next_hunk_header p = (HUNK_NEXT, hdr, p1)"
    using ips_next_hunk_header_five [OF assms] by blast
  then show ?thesis by (simp add: ips_next_def split: prod.splits)
qed

text \<open>
  C2 (counterexample). The claim: a 5-byte preamble that begins with the ASCII bytes
  \<open>EOF\<close> makes \<open>ips_next\<close> return \<open>HUNK_DONE\<close>, and bytes behind the tag are
  ignored. \<open>ips_next_hunk_header\<close> compares the bytes it reads with nothing. On the
  patch stream \<open>45 4F 46 00 01 AA\<close> the preamble \<open>45 4F 46 00 01\<close> is decoded as a hunk
  of length 1 at offset 0x454F46: \<open>ips_next\<close> returns \<open>HUNK_NEXT\<close>, has consumed all six
  bytes and has written \<open>AA\<close> at that offset of the output.
\<close>

theorem C2_counterexample_eof_prefix_decoded_as_hunk:
  "ips_next (stream_of []) (stream_of []) (stream_of [0x45, 0x4F, 0x46, 0, 1, 0xAA]) =
     (HUNK_NEXT, stream_of [],
      store ((stream_of [])\<lparr>pos := 0x454F46, eof_ind := False\<rparr>) [0xAA],
      (stream_of [0x45, 0x4F, 0x46, 0, 1, 0xAA])\<lparr>pos := 6\<rparr>)"
proof -
  have wf: "hunk_wellformed (Raw 0x454F46 [0xAA])" by simp
  have d: "drop (pos (stream_of [0x45, 0x4F, 0x46, 0, 1, 0xAA]))
             (content (stream_of [0x45, 0x4F, 0x46, 0, 1, 0xAA]))
           = hunk_encoding (Raw 0x454F46 [0xAA]) @ []"
    by (simp add: stream_of_def u24_be_def u16_be_def)
  have q: "faults (stream_of []) = []" "faults (stream_of [0x45, 0x4F, 0x46, 0, 1, 0xAA]) = []"
    by (simp_all add: stream_of_def)
  show ?thesis
    using ips_next_hunk [OF q wf d, of "stream_of []"] by (simp add: stream_of_def)
qed

text \<open>
  C2 (amended). When the read of the preamble does not fail and the error indicator of
  the patch stream is clear, \<open>ips_next\<close> returns \<open>HUNK_DONE\<close> exactly when fewer than
  five bytes are left in the patch file, whatever they are. So the tag \<open>EOF\<close> ends the
  stream when at most one byte follows it, as at the end of a patch file; five bytes
  that begin with \<open>EOF\<close> are a hunk header.
\<close>

theorem C2_done_only_on_short_preamble_read:
  assumes "next_fault p = None" and "\<not> err_ind p"
  shows "(fst (ips_next inp out p) = HUNK_DONE) = (length (content p) - pos p < 5)"
proof (cases "length (content p) - pos p < 5")
  case True
  then show ?thesis using ips_next_short [OF assms True, of inp out] by simp
next
  case False
  then have "5 \<le> length (content p) - pos p" by simp
  then show ?thesis using ips_next_full_preamble [OF assms(1), of inp out] False by simp
qed

theorem C2_done_only_on_short_preamble_read_witness:
  "next_fault ((stream_of [0x50, 0x41, 0x54, 0x43, 0x48, 0, 0, 2, 0, 2, 0xAB, 0xCD,
                           0x45, 0x4F, 0x46])\<lparr>pos := 12\<rparr>) = None \<and>
   fst (ips_next (stream_of []) (stream_of [])
          ((stream_of [0x50, 0x41, 0x54, 0x43, 0x48, 0, 0, 2, 0, 2, 0xAB, 0xCD,
                       0x45, 0x4F, 0x46])\<lparr>pos := 12\<rparr>)) = HUNK_DONE \<and>
   fst (ips_next (stream_of []) (stream_of [])
          ((stream_of [0x50, 0x41, 0x54, 0x43, 0x48, 0, 0, 2, 0, 2, 0xAB, 0xCD,
                       0x45, 0x4F, 0x46])\<lparr>pos := 5\<rparr>)) \<noteq> HUNK_DONE"
proof -
  let ?p = "stream_of [0x50, 0x41, 0x54, 0x43, 0x48, 0, 0, 2, 0, 2, 0xAB, 0xCD,
                       0x45, 0x4F, 0x46]"
  have a: "next_fault (?p\<lparr>pos := 12\<rparr>) = None" "\<not> err_ind (?p\<lparr>pos := 12\<rparr>)"
    "next_fault (?p\<lparr>pos := 5\<rparr>) = None" "\<not> err_ind (?p\<lparr>pos := 5\<rparr>)"
    by (simp_all add: stream_of_def next_fault_def)
  have l: "length (content (?p\<lparr>pos := 12\<rparr>)) - pos (?p\<lparr>pos := 12\<rparr>) < 5"
    "\<not> length (content (?p\<lparr>pos := 5\<rparr>)) - pos (?p\<lparr>pos := 5\<rparr>) < 5"
    by (simp_all add: stream_of_def)
  show ?thesis
    using C2_done_only_on_short_preamble_read [OF a(1,2), of "stream_of []" "stream_of []"]
      C2_done_only_on_short_preamble_read [OF a(3,4), of "stream_of []" "stream_of []"]
      a(1) l
    by simp
qed

text \<open>
  C9. Whenever the hunk loop of an IPS apply comes to read a preamble with fewer than
  five bytes left in the patch file (none, or a truncated preamble; no \<open>EOF\<close> tag is
  needed), and the read does not fail, \<open>ips_next\<close> returns \<open>HUNK_DONE\<close> and not an
  error; the loop reaches \<open>done\<close> on its next pass with \<open>err = PATCH_OK\<close>, the hunk
  count and the output stream as they were, and \<open>execute_patch\<close> returns \<open>PATCH_OK\<close>.
\<close>

theorem C9_patch_ending_without_eof_tag_is_accepted:
  assumes "iter_status (local_status w) = HUNK_NEXT"
    and "next_fault (patch_stream w) = None" and "\<not> err_ind (patch_stream w)"
    and "length (content (patch_stream w)) - pos (patch_stream w) < 5"
  shows "fst (ips_next (input_stream w) (output_stream w) (patch_stream w)) = HUNK_DONE \<and>
         (\<exists>w'. patch_loop bps PATCH_TYPE_IPS (Suc (Suc n)) w = AtDone w' \<and>
           err (local_status w') = PATCH_OK \<and>
           hunk_count (local_status w') = hunk_count (local_status w) \<and>
           output_stream w' = output_stream w \<and>
           (\<exists>h. done_label (local_status w') (shared w') files
                  = (Returned PATCH_OK h files :: 'a exec)))"
proof -
  let ?p = "patch_stream w"
  have nx: "ips_next (input_stream w) (output_stream w) ?p =
     (HUNK_DONE, input_stream w, output_stream w,
      (served ?p)\<lparr>pos := pos ?p + (length (content ?p) - pos ?p), eof_ind := True\<rparr>)"
    by (rule ips_next_short [OF assms(2,3,4)])
  show ?thesis
    by (simp add: nx patch_loop_next_ips [OF assms(1) nx] patch_loop_done_ips done_label_def)
qed

theorem C9_patch_ending_without_eof_tag_is_accepted_witness:
  "fst (ips_next (stream_of [0, 0, 0, 0, 0]) (stream_of [0, 0, 0xAB, 0xCD])
         ((stream_of [0x50, 0x41, 0x54, 0x43, 0x48, 0, 0, 2, 0, 2, 0xAB, 0xCD, 0, 0])
            \<lparr>pos := 12\<rparr>)) = HUNK_DONE \<and>
   (\<exists>w'. patch_loop bps_refusing PATCH_TYPE_IPS (Suc (Suc 0))
           \<lparr>local_status = patch_status_init\<lparr>iter_status := HUNK_NEXT, hunk_count := 1\<rparr>,
            shared = [], patch_ctx = (),
            input_stream = stream_of [0, 0, 0, 0, 0],
            output_stream = stream_of [0, 0, 0xAB, 0xCD],
            patch_stream =
              (stream_of [0x50, 0x41, 0x54, 0x43, 0x48, 0, 0, 2, 0, 2, 0xAB, 0xCD, 0, 0])
                \<lparr>pos := 12\<rparr>\<rparr> = AtDone w' \<and>
         err (local_status w') = PATCH_OK \<and> hunk_count (local_status w') = 1 \<and>
         output_stream w' = stream_of [0, 0, 0xAB, 0xCD] \<and>
         (\<exists>h. done_label (local_status w') (shared w') None
                = (Returned PATCH_OK h None :: unit exec)))"
proof -
  let ?w = "\<lparr>local_status = patch_status_init\<lparr>iter_status := HUNK_NEXT, hunk_count := 1\<rparr>,
            shared = [], patch_ctx = (),
            input_stream = stream_of [0, 0, 0, 0, 0],
            output_stream = stream_of [0, 0, 0xAB, 0xCD],
            patch_stream =
              (stream_of [0x50, 0x41, 0x54, 0x43, 0x48, 0, 0, 2, 0, 2, 0xAB, 0xCD, 0, 0])
                \<lparr>pos := 12\<rparr>\<rparr>"
  have a: "iter_status (local_status ?w) = HUNK_NEXT"
    "next_fault (patch_stream ?w) = None" "\<not> err_ind (patch_stream ?w)"
    "length (content (patch_stream ?w)) - pos (patch_stream ?w) < 5"
    by (simp_all add: stream_of_def next_fault_def)
  show ?thesis
    using C9_patch_ending_without_eof_tag_is_accepted [OF a, of bps_refusing 0 None]
    by simp
qed

section \<open>Failing calls\<close>

lemma fread_short:
  "fread f n = (d, f') \<Longrightarrow> length d < n \<Longrightarrow> err_ind f' \<or> eof_ind f'"
  by (auto simp: fread_def Let_def served_def failed_def split: option.splits)

lemma fread_failures:
  "fread f n = (d, f') \<Longrightarrow> 0 < n \<Longrightarrow>
   failures f' = failures f \<or>
   failures f' = Suc (failures f) \<and> length d < n \<and> err_ind f'"
  by (auto simp: fread_def Let_def served_def failed_def split: option.splits)

lemma fwrite_failures:
  assumes "fwrite f d = (k, f')" and "d \<noteq> []"
  shows "failures f' = failures f \<and> k = length d \<or>
         failures f' = Suc (failures f) \<and> k < length d"
proof (cases "next_fault f")
  case None
  then show ?thesis using assms
    by (auto simp: fwrite_def served_def store_def)
next
  case (Some x)
  have "0 < length d" using assms(2) by simp
  then have "min x (length d - 1) < length d" by arith
  then show ?thesis using assms Some
    by (auto simp: fwrite_def Let_def failed_def store_def)
qed

lemma fseek_failures:
  "fseek f off = (rc, f') \<Longrightarrow>
   failures f' = failures f \<and> rc = 0 \<or> failures f' = Suc (failures f) \<and> rc = - 1"
  by (auto simp: fseek_def served_def failed_def split: option.splits)

lemma ips_next_hunk_header_failures:
  assumes "ips_next_hunk_header p = (st, hdr, p')"
  shows "failures p' = failures p \<or> failures p' = Suc (failures p) \<and> st = HUNK_ERR_IO"
proof -
  obtain d p1 where r: "fread p 5 = (d, p1)" by (cases "fread p 5") auto
  have "failures p1 = failures p \<or>
        failures p1 = Suc (failures p) \<and> length d < 5 \<and> err_ind p1"
    using fread_failures [OF r] by simp
  then show ?thesis
    using assms r
    by (auto simp: ips_next_hunk_header_def HUNK_PREAMBLE_BYTE_SIZE_def ferror_def Let_def
        split: if_splits)
qed

lemma ips_get_rle_payload_failures:
  assumes "ips_get_rle_payload p = (rc, l, v, p')"
  shows "failures p' = failures p \<or> failures p' = Suc (failures p) \<and> rc = - 1"
proof -
  obtain d p1 where r: "fread p 3 = (d, p1)" by (cases "fread p 3") auto
  have "failures p1 = failures p \<or>
        failures p1 = Suc (failures p) \<and> length d < 3 \<and> err_ind p1"
    using fread_failures [OF r] by simp
  then show ?thesis
    using assms r
    by (auto simp: ips_get_rle_payload_def RLE_PAYLOAD_BYTE_SIZE_def ferror_def Let_def
        split: if_splits)
qed

lemma ips_write_rle_loop_failures:
  "ips_write_rle_loop i n v f = (rc, f') \<Longrightarrow>
   failures f' = failures f \<or> failures f' = Suc (failures f) \<and> rc = - 1"
proof (induction i n v f rule: ips_write_rle_loop.induct)
  case (1 i n v f)
  show ?case
  proof (cases "i < n")
    case False
    then show ?thesis using "1.prems" by (simp add: ips_write_rle_loop.simps)
  next
    case True
    obtain k f1 where w: "fwrite f [v] = (k, f1)" by (cases "fwrite f [v]") auto
    have fw: "failures f1 = failures f \<and> k = 1 \<or> failures f1 = Suc (failures f) \<and> k = 0"
      using fwrite_failures [OF w] by auto
    show ?thesis
    proof (cases "k = 0")
      case True
      then show ?thesis using \<open>i < n\<close> w "1.prems" fw
        by (simp add: ips_write_rle_loop.simps)
    next
      case False
      then have "ips_write_rle_loop (i + 1) n v f1 = (rc, f')"
        using \<open>i < n\<close> w "1.prems" by (simp add: ips_write_rle_loop.simps)
      then have "failures f' = failures f1 \<or> failures f' = Suc (failures f1) \<and> rc = - 1"
        using "1.IH" [OF \<open>i < n\<close> w [symmetric] False] by simp
      then show ?thesis using fw False by auto
    qed
  qed
qed


lemma ips_write_hunk_loop_failures:
  "ips_write_hunk_loop n p f = (rc, p', f') \<Longrightarrow>
   failures p' + failures f' = failures p + failures f \<or>
   failures p' + failures f' = Suc (failures p + failures f) \<and> rc = - 1"
proof (induction n p f rule: ips_write_hunk_loop.induct)
  case (1 n p f)
  show ?case
  proof (cases "0 < n")
    case False
    then show ?thesis using "1.prems" by (simp add: ips_write_hunk_loop.simps)
  next
    case True
    let ?m = "min BUF_SIZE n"
    have m0: "0 < ?m" using True by (simp add: BUF_SIZE_def)
    obtain buf p1 where r: "fread p ?m = (buf, p1)" by (cases "fread p ?m") auto
    obtain k f1 where w: "fwrite f buf = (k, f1)" by (cases "fwrite f buf") auto
    have fr: "failures p1 = failures p \<or>
              failures p1 = Suc (failures p) \<and> length buf < ?m \<and> err_ind p1"
      by (rule fread_failures [OF r m0])
    define sh where "sh \<longleftrightarrow> length buf < min BUF_SIZE n"
    have unf: "ips_write_hunk_loop n p f =
       (if sh \<and> ferror p1 then (- 1, p1, f)
        else if sh \<and> feof p1 then (- 1, p1, f)
        else if k < length buf then (- 1, p1, f1)
        else ips_write_hunk_loop (n - k) p1 f1)"
      unfolding sh_def using True r w by (subst ips_write_hunk_loop.simps) simp
    show ?thesis
    proof (cases sh)
      case short: True
      have ind: "err_ind p1 \<or> eof_ind p1"
        using short unfolding sh_def by (rule fread_short [OF r])
      have "ips_write_hunk_loop n p f = (- 1, p1, f)"
      proof (cases "ferror p1")
        case True
        then show ?thesis using unf short by simp
      next
        case False
        then have "feof p1" using ind by (simp add: ferror_def feof_def)
        then show ?thesis using unf short by simp
      qed
      then have "(rc, p', f') = (- 1, p1, f)" using "1.prems" by simp
      then show ?thesis using fr by auto
    next
      case full: False
      then have same: "failures p1 = failures p" using fr by (auto simp: sh_def)
      have ne: "buf \<noteq> []" using full m0 by (auto simp: sh_def)
      have fw: "failures f1 = failures f \<and> k = length buf \<or>
                failures f1 = Suc (failures f) \<and> k < length buf"
        by (rule fwrite_failures [OF w ne])
      show ?thesis
      proof (cases "k < length buf")
        case True
        then have "ips_write_hunk_loop n p f = (- 1, p1, f1)" using unf full by simp
        then have "(rc, p', f') = (- 1, p1, f1)" using "1.prems" by simp
        then show ?thesis using fw same True by auto
      next
        case nk: False
        then have "ips_write_hunk_loop n p f = ips_write_hunk_loop (n - k) p1 f1"
          using unf full by simp
        then have rec: "ips_write_hunk_loop (n - k) p1 f1 = (rc, p', f')"
          using "1.prems" by simp
        have "failures p' + failures f' = failures p1 + failures f1 \<or>
              failures p' + failures f' = Suc (failures p1 + failures f1) \<and> rc = - 1"
        proof (rule "1.IH")
          show "0 < n" by (rule True)
          show "(buf, p1) = fread p (min BUF_SIZE n)" using r by simp
          show "\<not> (length buf < min BUF_SIZE n \<and> ferror p1)"
            using full unfolding sh_def by blast
          show "\<not> (length buf < min BUF_SIZE n \<and> feof p1)"
            using full unfolding sh_def by blast
          show "(k, f1) = fwrite f buf" using w by simp
          show "\<not> k < length buf" by (rule nk)
          show "ips_write_hunk_loop (n - k) p1 f1 = (rc, p', f')" by (rule rec)
        qed
        then show ?thesis using fw same nk by auto
      qed
    qed
  qed
qed

lemma ips_patch_hunk_failures:
  assumes "ips_patch_hunk hdr inp out p = (rc, out', p')"
  shows "failures out' + failures p' = failures out + failures p \<or>
         failures out' + failures p' = Suc (failures out + failures p) \<and> rc < 0"
proof -
  obtain r0 o1 where sk: "fseek out (unat (offset hdr)) = (r0, o1)"
    by (cases "fseek out (unat (offset hdr))") auto
  have fs: "failures o1 = failures out \<and> r0 = 0 \<or> failures o1 = Suc (failures out) \<and> r0 = - 1"
    by (rule fseek_failures [OF sk])
  show ?thesis
  proof (cases "r0 = - 1")
    case True
    then have "(rc, out', p') = (- 1, o1, p)"
      using assms sk by (simp add: ips_patch_hunk_def)
    then show ?thesis using fs True by auto
  next
    case False
    then have so: "failures o1 = failures out" using fs by auto
    show ?thesis
    proof (cases "length_field hdr = 0")
      case True
      obtain r1 l v p1 where g: "ips_get_rle_payload p = (r1, l, v, p1)"
        by (cases "ips_get_rle_payload p") auto
      have fg: "failures p1 = failures p \<or> failures p1 = Suc (failures p) \<and> r1 = - 1"
        by (rule ips_get_rle_payload_failures [OF g])
      show ?thesis
      proof (cases "r1 < 0")
        case True
        then have "(rc, out', p') = (r1, o1, p1)"
          using assms sk g \<open>r0 \<noteq> - 1\<close> \<open>length_field hdr = 0\<close>
          by (simp add: ips_patch_hunk_def)
        then show ?thesis using fg so True by auto
      next
        case False
        then have sp: "failures p1 = failures p" using fg by auto
        obtain r2 o2 where wr: "ips_write_rle_hunk o1 l v = (r2, o2)"
          by (cases "ips_write_rle_hunk o1 l v") auto
        have fw: "failures o2 = failures o1 \<or> failures o2 = Suc (failures o1) \<and> r2 = - 1"
          using wr ips_write_rle_loop_failures [of 0 "unat l" v o1 r2 o2]
          by (simp add: ips_write_rle_hunk_def)
        have "out' = o2 \<and> p' = p1 \<and> (r2 < 0 \<longrightarrow> rc = r2)"
          using assms sk g wr \<open>r0 \<noteq> - 1\<close> \<open>length_field hdr = 0\<close> False
          by (auto simp: ips_patch_hunk_def split: if_splits)
        then show ?thesis using fw so sp by auto
      qed
    next
      case False
      obtain r1 p1 o2 where wr: "ips_write_hunk p o1 (ucast (length_field hdr)) = (r1, p1, o2)"
        by (cases "ips_write_hunk p o1 (ucast (length_field hdr))") auto
      have fw: "failures p1 + failures o2 = failures p + failures o1 \<or>
                failures p1 + failures o2 = Suc (failures p + failures o1) \<and> r1 = - 1"
        using wr ips_write_hunk_loop_failures [of _ p o1 r1 p1 o2]
        by (simp add: ips_write_hunk_def)
      have "out' = o2 \<and> p' = p1 \<and> (r1 < 0 \<longrightarrow> rc = r1)"
        using assms sk wr \<open>r0 \<noteq> - 1\<close> False
        by (auto simp: ips_patch_hunk_def split: if_splits)
      then show ?thesis using fw so by auto
    qed
  qed
qed

lemma ips_next_failures:
  assumes "ips_next inp out p = (st, inp', out', p')"
  shows "inp' = inp \<and>
         (failures out' + failures p' = failures out + failures p \<or>
          failures out' + failures p' = Suc (failures out + failures p) \<and> st = HUNK_ERR_IO)"
proof -
  obtain s0 hdr p1 where h: "ips_next_hunk_header p = (s0, hdr, p1)"
    by (cases "ips_next_hunk_header p") auto
  have fh: "failures p1 = failures p \<or> failures p1 = Suc (failures p) \<and> s0 = HUNK_ERR_IO"
    by (rule ips_next_hunk_header_failures [OF h])
  show ?thesis
  proof (cases "s0 = HUNK_ERR_IO \<or> s0 = HUNK_DONE")
    case True
    then have "(st, inp', out', p') = (s0, inp, out, p1)"
      using assms h by (auto simp: ips_next_def)
    then show ?thesis using fh True by auto
  next
    case False
    then have sp: "failures p1 = failures p" using fh by auto
    obtain r1 o1 p2 where ph: "ips_patch_hunk hdr inp out p1 = (r1, o1, p2)"
      by (cases "ips_patch_hunk hdr inp out p1") auto
    have fp: "failures o1 + failures p2 = failures out + failures p1 \<or>
              failures o1 + failures p2 = Suc (failures out + failures p1) \<and> r1 < 0"
      by (rule ips_patch_hunk_failures [OF ph])
    have "inp' = inp \<and> out' = o1 \<and> p' = p2 \<and> (r1 < 0 \<longrightarrow> st = HUNK_ERR_IO)"
      using assms h ph False by (auto simp: ips_next_def split: if_splits)
    then show ?thesis using fp sp by auto
  qed
qed


text \<open>
  C7. Take any pass of the hunk loop of an IPS apply in which a call of \<open>fread\<close>,
  \<open>fwrite\<close> or \<open>fseek\<close> fails, that is, in which the failure count of the output or
  of the patch stream grows. Then \<open>ips_next\<close> returns \<open>HUNK_ERR_IO\<close>, and exactly one
  call has failed: the fault schedules are arbitrary, so \<open>ips_next\<close> makes no call
  after the failing one. The worker stores the status \<open>HUNK_ERR_IO\<close> in the shared
  record, reaches \<open>done\<close> on its next pass with \<open>err = PATCH_ERR_IO\<close>, and
  \<open>execute_patch\<close> returns \<open>PATCH_ERR_IO\<close> with the three streams exactly as the
  failing \<open>ips_next\<close> left them: nothing is retried and nothing written is taken back.
  In the witness the \<open>fwrite\<close> of a two-byte payload fails after one byte, and that byte
  stays in the output.
\<close>

theorem C7_io_failure_ends_apply_with_PATCH_ERR_IO:
  assumes "iter_status (local_status w) = HUNK_NEXT"
    and "ips_next (input_stream w) (output_stream w) (patch_stream w) = (st, i', o', p')"
    and "failures o' + failures p' \<noteq> failures (output_stream w) + failures (patch_stream w)"
  shows "st = HUNK_ERR_IO \<and>
     failures o' + failures p' = Suc (failures (output_stream w) + failures (patch_stream w)) \<and>
     patch_loop bps PATCH_TYPE_IPS (Suc (Suc n)) w =
       AtDone (w\<lparr>local_status :=
                    (local_status w)\<lparr>iter_status := HUNK_ERR_IO, err := PATCH_ERR_IO\<rparr>,
                  shared := shared w @ [(local_status w)\<lparr>iter_status := HUNK_ERR_IO\<rparr>],
                  input_stream := i', output_stream := o', patch_stream := p'\<rparr>) \<and>
     done_label ((local_status w)\<lparr>iter_status := HUNK_ERR_IO, err := PATCH_ERR_IO\<rparr>)
         (shared w @ [(local_status w)\<lparr>iter_status := HUNK_ERR_IO\<rparr>])
         (Some (i', o', p')) =
       (Returned PATCH_ERR_IO
         (shared w @ [(local_status w)\<lparr>iter_status := HUNK_ERR_IO\<rparr>,
                      (local_status w)\<lparr>iter_status := HUNK_ERR_IO, err := PATCH_ERR_IO,
                                        is_done := True\<rparr>])
         (Some (i', o', p')) :: 'a exec)"
proof -
  have f: "i' = input_stream w \<and>
     (failures o' + failures p' = failures (output_stream w) + failures (patch_stream w) \<or>
      failures o' + failures p' = Suc (failures (output_stream w) + failures (patch_stream w))
        \<and> st = HUNK_ERR_IO)"
    by (rule ips_next_failures [OF assms(2)])
  then have st: "st = HUNK_ERR_IO"
    and one: "failures o' + failures p'
                = Suc (failures (output_stream w) + failures (patch_stream w))"
    using assms(3) by auto
  have lp: "patch_loop bps PATCH_TYPE_IPS (Suc (Suc n)) w =
       AtDone (w\<lparr>local_status :=
                    (local_status w)\<lparr>iter_status := HUNK_ERR_IO, err := PATCH_ERR_IO\<rparr>,
                  shared := shared w @ [(local_status w)\<lparr>iter_status := HUNK_ERR_IO\<rparr>],
                  input_stream := i', output_stream := o', patch_stream := p'\<rparr>)"
    using assms(2) st
    by (simp add: patch_loop_next_ips [OF assms(1) assms(2)] patch_loop_err)
  show ?thesis
    using st one lp
    by (simp add: done_label_def rombp_update_patch_status_def patch_status_copy_id)
qed


lemma ips_next_write_failure_example:
  "ips_next (stream_of [0, 0, 0, 0, 0])
      ((stream_of [0, 0, 0, 0, 0])\<lparr>faults := [None, Some 1]\<rparr>)
      ((stream_of [0x50, 0x41, 0x54, 0x43, 0x48, 0, 0, 2, 0, 2, 0xAB, 0xCD,
                   0x45, 0x4F, 0x46])\<lparr>pos := 5\<rparr>) =
   (HUNK_ERR_IO, stream_of [0, 0, 0, 0, 0],
    (stream_of [0, 0, 0xAB, 0, 0])\<lparr>pos := 3, err_ind := True, failures := 1\<rparr>,
    (stream_of [0x50, 0x41, 0x54, 0x43, 0x48, 0, 0, 2, 0, 2, 0xAB, 0xCD,
                0x45, 0x4F, 0x46])\<lparr>pos := 12\<rparr>)"
  by (simp add: ips_next_def ips_next_hunk_header_def ips_patch_hunk_def ips_write_hunk_def
      ips_write_hunk_loop.simps HUNK_PREAMBLE_BYTE_SIZE_def BUF_SIZE_def
      be_24bit_int_def be_16bit_int_def buffer_def
      fread_def fwrite_def fseek_def ferror_def feof_def next_fault_def served_def failed_def
      store_def write_at_def Let_def stream_of_def)


theorem C7_io_failure_ends_apply_with_PATCH_ERR_IO_witness:
  "\<exists>w'. patch_loop bps_refusing PATCH_TYPE_IPS (Suc (Suc 0))
      \<lparr>local_status = patch_status_init\<lparr>iter_status := HUNK_NEXT\<rparr>,
       shared = [], patch_ctx = (),
       input_stream = stream_of [0, 0, 0, 0, 0],
       output_stream = (stream_of [0, 0, 0, 0, 0])\<lparr>faults := [None, Some 1]\<rparr>,
       patch_stream = (stream_of [0x50, 0x41, 0x54, 0x43, 0x48, 0, 0, 2, 0, 2, 0xAB, 0xCD,
                                  0x45, 0x4F, 0x46])\<lparr>pos := 5\<rparr>\<rparr> = AtDone w' \<and>
     iter_status (local_status w') = HUNK_ERR_IO \<and> err (local_status w') = PATCH_ERR_IO \<and>
     content (output_stream w') = [0, 0, 0xAB, 0, 0] \<and> failures (output_stream w') = 1"
proof -
  let ?w = "\<lparr>local_status = patch_status_init\<lparr>iter_status := HUNK_NEXT\<rparr>,
       shared = [], patch_ctx = (),
       input_stream = stream_of [0, 0, 0, 0, 0],
       output_stream = (stream_of [0, 0, 0, 0, 0])\<lparr>faults := [None, Some 1]\<rparr>,
       patch_stream = (stream_of [0x50, 0x41, 0x54, 0x43, 0x48, 0, 0, 2, 0, 2, 0xAB, 0xCD,
                                  0x45, 0x4F, 0x46])\<lparr>pos := 5\<rparr>\<rparr>"
  let ?o = "(stream_of [0, 0, 0xAB, 0, 0])\<lparr>pos := 3, err_ind := True, failures := 1\<rparr>"
  let ?p = "(stream_of [0x50, 0x41, 0x54, 0x43, 0x48, 0, 0, 2, 0, 2, 0xAB, 0xCD,
                        0x45, 0x4F, 0x46])\<lparr>pos := 12\<rparr>"
  have a: "iter_status (local_status ?w) = HUNK_NEXT" by simp
  have b: "ips_next (input_stream ?w) (output_stream ?w) (patch_stream ?w)
           = (HUNK_ERR_IO, stream_of [0, 0, 0, 0, 0], ?o, ?p)"
    using ips_next_write_failure_example by simp
  have c: "failures ?o + failures ?p
             \<noteq> failures (output_stream ?w) + failures (patch_stream ?w)"
    by (simp add: stream_of_def)
  let ?W = "?w\<lparr>local_status :=
                    (local_status ?w)\<lparr>iter_status := HUNK_ERR_IO, err := PATCH_ERR_IO\<rparr>,
                  shared := shared ?w @ [(local_status ?w)\<lparr>iter_status := HUNK_ERR_IO\<rparr>],
                  input_stream := stream_of [0, 0, 0, 0, 0], output_stream := ?o,
                  patch_stream := ?p\<rparr>"
  have lp: "patch_loop bps_refusing PATCH_TYPE_IPS (Suc (Suc 0)) ?w = AtDone ?W"
    using C7_io_failure_ends_apply_with_PATCH_ERR_IO [OF a b c, of bps_refusing 0]
    by (elim conjE)
  have "iter_status (local_status ?W) = HUNK_ERR_IO \<and> err (local_status ?W) = PATCH_ERR_IO \<and>
     content (output_stream ?W) = [0, 0, 0xAB, 0, 0] \<and> failures (output_stream ?W) = 1"
    by (simp add: stream_of_def)
  then show ?thesis using lp by blast
qed

section \<open>Detection of the patch type\<close>

lemma fread_content:
  "fread f n = (d, f') \<Longrightarrow> content f' = content f"
  by (auto simp: fread_def Let_def served_def failed_def split: option.splits)

lemma fread_prefix:
  assumes "fread f n = (d, f')"
  shows "\<exists>k\<le>n. d = take k (drop (pos f) (content f))"
proof (cases "next_fault f")
  case None
  then have "d = take n (drop (pos f) (content f))"
    using assms by (simp add: fread_def Let_def)
  then show ?thesis by blast
next
  case (Some x)
  then have "d = take (min x (n - 1)) (drop (pos f) (content f))"
    using assms by (simp add: fread_def Let_def)
  moreover have "min x (n - 1) \<le> n" by simp
  ultimately show ?thesis by blast
qed

lemma patch_verify_marker_ok:
  assumes "patch_verify_marker f m (length m) = (PATCH_OK, f')"
  shows "take (length m) (drop (pos f) (content f)) = m"
proof -
  obtain d f1 where r: "fread f (length m) = (d, f1)" by (cases "fread f (length m)") auto
  have dm: "d = m" using assms r
    by (auto simp: patch_verify_marker_def split: if_splits)
  obtain k where k: "k \<le> length m" "d = take k (drop (pos f) (content f))"
    using fread_prefix [OF r] by blast
  have "length m = min k (length (drop (pos f) (content f)))"
    using k(2) dm by (metis length_take min.commute)
  then have "k = length m" using k(1) by arith
  then show ?thesis using k(2) dm by simp
qed

lemma patch_verify_marker_content:
  "patch_verify_marker f m n = (rc, f') \<Longrightarrow> content f' = content f"
  by (auto simp: patch_verify_marker_def fread_content split: prod.splits if_splits)

lemma detect_patch_type_unknown:
  assumes "pos f = 0"
    and "take 5 (content f) \<noteq> IPS_EXPECTED_MARKER"
    and "take 4 (content f) \<noteq> BPS_EXPECTED_MARKER"
  shows "fst (detect_patch_type f) = PATCH_TYPE_UNKNOWN"
proof -
  obtain rc f1 where v1: "ips_verify_marker f = (rc, f1)" by (cases "ips_verify_marker f") auto
  have l5: "length IPS_EXPECTED_MARKER = 5" by (simp add: IPS_EXPECTED_MARKER_def)
  have l4: "length BPS_EXPECTED_MARKER = 4" by (simp add: BPS_EXPECTED_MARKER_def)
  have n1: "rc \<noteq> PATCH_OK"
  proof
    assume "rc = PATCH_OK"
    then have "patch_verify_marker f IPS_EXPECTED_MARKER (length IPS_EXPECTED_MARKER)
                 = (PATCH_OK, f1)"
      using v1 by (simp add: ips_verify_marker_def IPS_MARKER_SIZE_def)
    from patch_verify_marker_ok [OF this] show False using assms(1,2) l5 by simp
  qed
  have c1: "content f1 = content f"
    using v1 by (simp add: ips_verify_marker_def patch_verify_marker_content)
  obtain rc2 f2 where sk: "fseek f1 0 = (rc2, f2)" by (cases "fseek f1 0") auto
  show ?thesis
  proof (cases "rc2 = - 1")
    case True
    then show ?thesis using v1 n1 sk by (simp add: detect_patch_type_def)
  next
    case False
    then have f2: "pos f2 = 0" "content f2 = content f"
      using sk c1 by (auto simp: fseek_def served_def failed_def split: option.splits)
    obtain rc3 f3 where v3: "bps_verify_marker f2 = (rc3, f3)"
      by (cases "bps_verify_marker f2") auto
    have n3: "rc3 \<noteq> PATCH_OK"
    proof
      assume "rc3 = PATCH_OK"
      then have "patch_verify_marker f2 BPS_EXPECTED_MARKER (length BPS_EXPECTED_MARKER)
                   = (PATCH_OK, f3)"
        using v3 by (simp add: bps_verify_marker_def)
      from patch_verify_marker_ok [OF this] show False using assms(3) f2 l4 by simp
    qed
    show ?thesis using v1 n1 sk False v3 n3 by (simp add: detect_patch_type_def)
  qed
qed

text \<open>
  C4. When the three files can be opened and the patch file begins neither with the
  five bytes \<open>PATCH\<close> nor with the four bytes \<open>BPS1\<close>, \<open>execute_patch\<close> returns
  \<open>PATCH_UNKNOWN_TYPE\<close>, whatever the source, the BPS decoder, the number of passes
  allowed to the loop (which is not entered) and the fault schedules, and the one
  record it stores carries that error and \<open>is_done\<close>. \<open>detect_patch_type\<close> tries the
  IPS marker, seeks the patch file back to 0 and tries the BPS marker; a failing seek
  gives \<open>PATCH_TYPE_UNKNOWN\<close> as well.
\<close>

theorem C4_unrecognised_marker_gives_PATCH_UNKNOWN_TYPE:
  assumes "os (input_file cmd) = Some fi" and "os (output_file cmd) = Some fo"
    and "os (ips_file cmd) = Some fp"
    and "take 5 (content fp) \<noteq> IPS_EXPECTED_MARKER"
    and "take 4 (content fp) \<noteq> BPS_EXPECTED_MARKER"
  shows "\<exists>h files. execute_patch bps os n ctx cmd = Returned PATCH_UNKNOWN_TYPE h files \<and>
           last h = \<lparr>iter_status = HUNK_DONE, err = PATCH_UNKNOWN_TYPE, hunk_count = 0,
                     is_done = True\<rparr>"
proof -
  define p0 where "p0 = fp\<lparr>content := content fp, pos := 0, eof_ind := False, err_ind := False\<rparr>"
  have op: "open_patch_files os cmd =
      Inr (fi\<lparr>content := content fi, pos := 0, eof_ind := False, err_ind := False\<rparr>,
           fo\<lparr>content := [], pos := 0, eof_ind := False, err_ind := False\<rparr>, p0)"
    using assms(1,2,3) by (simp add: open_patch_files_def fopen_def p0_def)
  have "fst (detect_patch_type p0) = PATCH_TYPE_UNKNOWN"
    by (rule detect_patch_type_unknown) (simp_all add: p0_def assms(4,5))
  then obtain p1 where dt: "detect_patch_type p0 = (PATCH_TYPE_UNKNOWN, p1)"
    by (cases "detect_patch_type p0") auto
  show ?thesis
    by (simp add: execute_patch_def op dt done_label_def patch_status_init_def
        rombp_update_patch_status_def patch_status_copy_id)
qed

theorem C4_unrecognised_marker_gives_PATCH_UNKNOWN_TYPE_witness:
  "\<exists>h files.
     execute_patch bps_refusing
       (os_of [(''rom'', [1, 2, 3]), (''out'', []), (''blob'', [0x42, 0x50, 0x53, 0x32, 0])])
       0 () \<lparr>input_file = ''rom'', ips_file = ''blob'', output_file = ''out''\<rparr>
       = Returned PATCH_UNKNOWN_TYPE h files \<and>
     last h = \<lparr>iter_status = HUNK_DONE, err = PATCH_UNKNOWN_TYPE, hunk_count = 0,
               is_done = True\<rparr>"
proof -
  let ?os = "os_of [(''rom'', [1, 2, 3]), (''out'', []), (''blob'', [0x42, 0x50, 0x53, 0x32, 0])]"
  let ?cmd = "\<lparr>input_file = ''rom'', ips_file = ''blob'', output_file = ''out''\<rparr>"
  have a: "?os (input_file ?cmd) = Some (stream_of [1, 2, 3])"
    "?os (output_file ?cmd) = Some (stream_of [])"
    "?os (ips_file ?cmd) = Some (stream_of [0x42, 0x50, 0x53, 0x32, 0])"
    by (simp_all add: os_of_def)
  have b: "take 5 (content (stream_of [0x42, 0x50, 0x53, 0x32, 0])) \<noteq> IPS_EXPECTED_MARKER"
    "take 4 (content (stream_of [0x42, 0x50, 0x53, 0x32, 0])) \<noteq> BPS_EXPECTED_MARKER"
    by (simp_all add: stream_of_def IPS_EXPECTED_MARKER_def BPS_EXPECTED_MARKER_def)
  show ?thesis
    by (rule C4_unrecognised_marker_gives_PATCH_UNKNOWN_TYPE [OF a b])
qed

section \<open>A whole apply of an IPS patch\<close>

lemma copy_loop_quiet:
  assumes "faults i = []" and "faults out = []" and "pos i \<le> length (content i)"
  shows "copy_loop sz t i out =
     ((if t + (length (content i) - pos i) < sz then - 1 else 0),
      i\<lparr>pos := length (content i), eof_ind := True\<rparr>,
      store out (take ((length (content i) - pos i) div BUF_SIZE * BUF_SIZE)
                   (drop (pos i) (content i))))"
  using assms
proof (induction sz t i out rule: copy_loop.induct)
  case (1 sz t i out)
  define r where "r = length (content i) - pos i"
  define xs where "xs = drop (pos i) (content i)"
  have lx: "length xs = r" by (simp add: xs_def r_def)
  have B: "0 < BUF_SIZE" by (simp add: BUF_SIZE_def)
  show ?case
  proof (cases "r < BUF_SIZE")
    case True
    have rd: "fread i BUF_SIZE = (xs, i\<lparr>pos := length (content i), eof_ind := True\<rparr>)"
      using "1.prems" True lx by (simp add: fread_quiet xs_def r_def min_def)
    have "r div BUF_SIZE = 0" using True by simp
    then show ?thesis
      using rd True lx
      by (subst copy_loop.simps) (simp add: r_def [symmetric] xs_def [symmetric])
  next
    case False
    define buf where "buf = take BUF_SIZE xs"
    define i1 where "i1 = i\<lparr>pos := pos i + BUF_SIZE\<rparr>"
    have lb: "length buf = BUF_SIZE" using False lx by (simp add: buf_def)
    have rd: "fread i BUF_SIZE = (buf, i1)"
      using "1.prems" False by (simp add: fread_quiet buf_def xs_def r_def i1_def min_def)
    have wr: "fwrite out buf = (length buf, store out buf)"
      using "1.prems" by (simp add: fwrite_quiet)
    have step: "copy_loop sz t i out = copy_loop sz (t + length buf) i1 (store out buf)"
      using rd wr lb by (subst copy_loop.simps) simp
    have ih: "copy_loop sz (t + length buf) i1 (store out buf) =
       ((if t + length buf + (length (content i1) - pos i1) < sz then - 1 else 0),
        i1\<lparr>pos := length (content i1), eof_ind := True\<rparr>,
        store (store out buf)
          (take ((length (content i1) - pos i1) div BUF_SIZE * BUF_SIZE)
             (drop (pos i1) (content i1))))"
    proof (rule "1.IH")
      show "(buf, i1) = fread i BUF_SIZE" using rd by simp
      show "\<not> length buf < BUF_SIZE" using lb by simp
      show "(length buf, store out buf) = fwrite out buf" using wr by simp
      show "\<not> length buf < length buf" by simp
      show "faults i1 = []" using "1.prems" by (simp add: i1_def)
      show "faults (store out buf) = []" using "1.prems" by simp
      show "pos i1 \<le> length (content i1)" using False "1.prems" by (simp add: i1_def r_def)
    qed
    have r1: "length (content i1) - pos i1 = r - BUF_SIZE" by (simp add: i1_def r_def)
    have dv: "r div BUF_SIZE = Suc ((r - BUF_SIZE) div BUF_SIZE)"
      using False B by (simp add: le_div_geq)
    have "take (r div BUF_SIZE * BUF_SIZE) xs
            = take (BUF_SIZE + (r - BUF_SIZE) div BUF_SIZE * BUF_SIZE) xs"
      by (simp add: dv)
    also have "\<dots> = buf @ take ((r - BUF_SIZE) div BUF_SIZE * BUF_SIZE) (drop BUF_SIZE xs)"
      unfolding buf_def by (rule take_add)
    finally have cat: "buf @ take ((r - BUF_SIZE) div BUF_SIZE * BUF_SIZE) (drop BUF_SIZE xs)
                        = take (r div BUF_SIZE * BUF_SIZE) xs" by simp
    have dd: "drop (pos i1) (content i1) = drop BUF_SIZE xs"
      by (simp add: i1_def xs_def add.commute)
    have tt: "t + length buf + (r - BUF_SIZE) = t + r" using False lb by simp
    have ii: "i1\<lparr>pos := length (content i1), eof_ind := True\<rparr>
                = i\<lparr>pos := length (content i), eof_ind := True\<rparr>"
      by (simp add: i1_def)
    show ?thesis
      unfolding step ih r1 dd tt ii store_store cat
      by (simp add: r_def xs_def)
  qed
qed

lemma copy_file_whole_buffers_only:
  assumes "faults i = []" and "faults out = []" and "pos i = 0"
  shows "copy_file i out =
     (0, i\<lparr>pos := length (content i), eof_ind := True\<rparr>,
      store out (take (length (content i) div BUF_SIZE * BUF_SIZE) (content i)))"
proof -
  have "fstat i = (Some (length (content i)), i)"
    using assms(1) by (simp add: fstat_def next_fault_quiet served_quiet)
  then show ?thesis
    using copy_loop_quiet [OF assms(1,2), of "length (content i)" 0] assms(3)
    by (simp add: copy_file_def)
qed

lemma ips_start_quiet:
  assumes "faults i = []" and "faults out = []" and "pos i = 0"
  shows "ips_start i out =
     (PATCH_OK, i\<lparr>pos := length (content i), eof_ind := True\<rparr>,
      store out (take (length (content i) div BUF_SIZE * BUF_SIZE) (content i)))"
  by (simp add: ips_start_def copy_file_whole_buffers_only [OF assms])

lemma detect_patch_type_ips:
  assumes "faults p = []" and "pos p = 0" and "content p = IPS_EXPECTED_MARKER @ rest"
  shows "detect_patch_type p = (PATCH_TYPE_IPS, p\<lparr>pos := 5\<rparr>)"
proof -
  have ms: "IPS_MARKER_SIZE = 5" by (simp add: IPS_MARKER_SIZE_def IPS_EXPECTED_MARKER_def)
  have l: "length IPS_EXPECTED_MARKER = 5" by (simp add: IPS_EXPECTED_MARKER_def)
  have "fread p 5 = (IPS_EXPECTED_MARKER, p\<lparr>pos := 5\<rparr>)"
    using assms l by (simp add: fread_quiet)
  then have "patch_verify_marker p IPS_EXPECTED_MARKER 5 = (PATCH_OK, p\<lparr>pos := 5\<rparr>)"
    using l by (simp add: patch_verify_marker_def)
  then show ?thesis
    by (simp add: detect_patch_type_def ips_verify_marker_def ms)
qed

lemma execute_patch_ips_run:
  assumes "os (input_file cmd) = Some fi" and "os (output_file cmd) = Some fo"
    and "os (ips_file cmd) = Some fp"
    and "faults fi = []" and "faults fo = []" and "faults fp = []"
    and "content fp = IPS_EXPECTED_MARKER @ concat (map hunk_encoding hs) @ tail"
    and "length tail < 5" and "\<forall>h\<in>set hs. hunk_wellformed h"
  shows "\<exists>h i out p. execute_patch bps os (length hs + 2) ctx cmd
                        = Returned PATCH_OK h (Some (i, out, p)) \<and>
           content out = foldl overlay
             (take (length (content fi) div BUF_SIZE * BUF_SIZE) (content fi)) hs \<and>
           length h = length hs + 2 \<and> hunk_count (last h) = of_nat (length hs)"
proof -
  define i0 where "i0 = fi\<lparr>content := content fi, pos := 0, eof_ind := False, err_ind := False\<rparr>"
  define o0 where "o0 = fo\<lparr>content := [], pos := 0, eof_ind := False, err_ind := False\<rparr>"
  define p0 where "p0 = fp\<lparr>content := content fp, pos := 0, eof_ind := False, err_ind := False\<rparr>"
  define src where "src = take (length (content fi) div BUF_SIZE * BUF_SIZE) (content fi)"
  have op: "open_patch_files os cmd = Inr (i0, o0, p0)"
    using assms(1,2,3) by (simp add: open_patch_files_def fopen_def i0_def o0_def p0_def)
  have dt: "detect_patch_type p0 = (PATCH_TYPE_IPS, p0\<lparr>pos := 5\<rparr>)"
    by (rule detect_patch_type_ips [where rest = "concat (map hunk_encoding hs) @ tail"])
       (simp_all add: p0_def assms(6,7))
  have st0: "ips_start i0 o0 =
     (PATCH_OK, i0\<lparr>pos := length (content i0), eof_ind := True\<rparr>, store o0 src)"
    unfolding src_def
    using ips_start_quiet [of i0 o0] assms(4,5) by (simp add: i0_def o0_def)
  have sp: "start_patch bps PATCH_TYPE_IPS ctx i0 (p0\<lparr>pos := 5\<rparr>) o0 =
     (0, ctx, i0\<lparr>pos := length (content i0), eof_ind := True\<rparr>, p0\<lparr>pos := 5\<rparr>, store o0 src)"
    by (simp add: start_patch_def st0)
  define w0 where "w0 = \<lparr>local_status =
        patch_status_init\<lparr>err := PATCH_OK, iter_status := HUNK_NEXT\<rparr>,
      shared = [], patch_ctx = ctx,
      input_stream = i0\<lparr>pos := length (content i0), eof_ind := True\<rparr>,
      output_stream = store o0 src, patch_stream = p0\<lparr>pos := 5\<rparr>\<rparr>"
  have ex: "execute_patch bps os (length hs + 2) ctx cmd =
      (case patch_loop bps PATCH_TYPE_IPS (length hs + 2) w0 of
         Running w \<Rightarrow> Unfinished w
       | AtDone w \<Rightarrow> done_label (local_status w) (shared w)
                      (Some (input_stream w, output_stream w, patch_stream w)))"
    by (simp add: execute_patch_def op dt sp w0_def)
  have l5: "length IPS_EXPECTED_MARKER = 5" by (simp add: IPS_EXPECTED_MARKER_def)
  have "\<exists>w'. patch_loop bps PATCH_TYPE_IPS (length hs + 2) w0 = AtDone w' \<and>
       content (output_stream w') = foldl overlay (content (output_stream w0)) hs \<and>
       err (local_status w') = PATCH_OK \<and>
       iter_status (local_status w') = HUNK_DONE \<and>
       hunk_count (local_status w') = hunk_count (local_status w0) + of_nat (length hs) \<and>
       length (shared w') = length (shared w0) + length hs + 1"
  proof (rule patch_loop_hunks)
    show "iter_status (local_status w0) = HUNK_NEXT" by (simp add: w0_def)
    show "\<forall>h\<in>set hs. hunk_wellformed h" by (rule assms(9))
    show "drop (pos (patch_stream w0)) (content (patch_stream w0))
            = concat (map hunk_encoding hs) @ tail"
      using l5 by (simp add: w0_def p0_def assms(7))
    show "length tail < 5" by (rule assms(8))
    show "faults (patch_stream w0) = []" by (simp add: w0_def p0_def assms(6))
    show "faults (output_stream w0) = []" by (simp add: w0_def o0_def assms(5))
    show "\<not> err_ind (patch_stream w0)" by (simp add: w0_def p0_def)
  qed
  then obtain w' where lp: "patch_loop bps PATCH_TYPE_IPS (length hs + 2) w0 = AtDone w'"
    and ct: "content (output_stream w') = foldl overlay (content (output_stream w0)) hs"
    and er: "err (local_status w') = PATCH_OK"
    and hc: "hunk_count (local_status w') = hunk_count (local_status w0) + of_nat (length hs)"
    and ln: "length (shared w') = length (shared w0) + length hs + 1"
    by blast
  have c0: "content (output_stream w0) = src"
    by (cases "src = []") (simp_all add: w0_def o0_def write_at_def)
  define fin where "fin = (local_status w')\<lparr>is_done := True\<rparr>"
  have r: "execute_patch bps os (length hs + 2) ctx cmd =
      Returned PATCH_OK (shared w' @ [fin])
        (Some (input_stream w', output_stream w', patch_stream w'))"
    unfolding ex lp using er
    by (simp add: done_label_def rombp_update_patch_status_def patch_status_copy_id fin_def)
  have a: "content (output_stream w') = foldl overlay
             (take (length (content fi) div BUF_SIZE * BUF_SIZE) (content fi)) hs"
    using ct c0 by (simp add: src_def)
  have b: "length (shared w' @ [fin]) = length hs + 2"
    using ln by (simp add: w0_def)
  have c: "hunk_count (last (shared w' @ [fin])) = of_nat (length hs)"
    using hc by (simp add: w0_def patch_status_init_def fin_def)
  show ?thesis using r a b c by blast
qed

text \<open>
  C1 (the code departs from the claim). \<open>ips_start\<close> is claimed to copy the whole
  source to the output. \<open>copy_file\<close> returns at a short read before the \<open>fwrite\<close> of
  that buffer, so the last \<open>size mod 32768\<close> bytes of the source are never written
  (lemma \<open>copy_file_whole_buffers_only\<close>). On a source of five bytes \<open>ips_start\<close>
  returns \<open>PATCH_OK\<close> and the output is still empty.
\<close>

theorem C1_ips_start_leaves_short_source_uncopied:
  "ips_start (stream_of [0, 0, 0, 0, 0]) (stream_of []) =
     (PATCH_OK, (stream_of [0, 0, 0, 0, 0])\<lparr>pos := 5, eof_ind := True\<rparr>, stream_of [])"
proof -
  let ?i = "stream_of [0, 0, 0, 0, 0]" and ?out = "stream_of []"
  have "ips_start ?i ?out =
     (PATCH_OK, ?i\<lparr>pos := length (content ?i), eof_ind := True\<rparr>,
      store ?out (take (length (content ?i) div BUF_SIZE * BUF_SIZE) (content ?i)))"
    by (rule ips_start_quiet) (simp_all add: stream_of_def)
  then show ?thesis by (simp add: stream_of_def BUF_SIZE_def)
qed

text \<open>
  C3 (the code departs from the claim). On the specification's scenario 1, source
  \<open>00 00 00 00 00\<close> and patch \<open>PATCH 00 00 02 00 02 AB CD EOF\<close>, \<open>execute_patch\<close>
  returns \<open>PATCH_OK\<close>, but the output file holds the four bytes \<open>00 00 AB CD\<close>, not
  the five bytes \<open>00 00 AB CD 00\<close>: \<open>ips_start\<close> has copied nothing of the source,
  and the hunk is written at offset 2 of an empty file.
\<close>

theorem C3_spec_scenario_1_output_is_four_bytes:
  "(case execute_patch bps_refusing
      (os_of [(''source'', [0, 0, 0, 0, 0]), (''output'', []),
              (''patch'', [0x50, 0x41, 0x54, 0x43, 0x48,
                           0, 0, 2, 0, 2, 0xAB, 0xCD, 0x45, 0x4F, 0x46])])
      3 () \<lparr>input_file = ''source'', ips_file = ''patch'', output_file = ''output''\<rparr> of
      Returned e h (Some (i, out, p)) \<Rightarrow> e = PATCH_OK \<and> content out = [0, 0, 0xAB, 0xCD]
    | _ \<Rightarrow> False)"
proof -
  let ?os = "os_of [(''source'', [0, 0, 0, 0, 0]), (''output'', []),
              (''patch'', [0x50, 0x41, 0x54, 0x43, 0x48,
                           0, 0, 2, 0, 2, 0xAB, 0xCD, 0x45, 0x4F, 0x46])]"
  let ?cmd = "\<lparr>input_file = ''source'', ips_file = ''patch'', output_file = ''output''\<rparr>"
  let ?hs = "[Raw 2 [0xAB, 0xCD]]"
  let ?fi = "stream_of [0, 0, 0, 0, 0]"
  let ?fp = "stream_of [0x50, 0x41, 0x54, 0x43, 0x48,
                        0, 0, 2, 0, 2, 0xAB, 0xCD, 0x45, 0x4F, 0x46]"
  have a: "?os (input_file ?cmd) = Some ?fi" "?os (output_file ?cmd) = Some (stream_of [])"
    "?os (ips_file ?cmd) = Some ?fp"
    by (simp_all add: os_of_def)
  have q: "faults ?fi = []" "faults (stream_of []) = []" "faults ?fp = []"
    by (simp_all add: stream_of_def)
  have c: "content ?fp = IPS_EXPECTED_MARKER @ concat (map hunk_encoding ?hs) @ [0x45, 0x4F, 0x46]"
    by (simp add: stream_of_def IPS_EXPECTED_MARKER_def u24_be_def u16_be_def)
  have t: "length [0x45, 0x4F, 0x46 :: byte] < 5" by simp
  have wf: "\<forall>h\<in>set ?hs. hunk_wellformed h" by simp
  have n: "length ?hs + 2 = 3" by simp
  have ov: "foldl overlay (take (length (content ?fi) div BUF_SIZE * BUF_SIZE) (content ?fi)) ?hs
              = [0, 0, 0xAB, 0xCD]"
    by (simp add: stream_of_def BUF_SIZE_def overlay_def write_at_def numeral_2_eq_2)
  obtain h i out p where
    "execute_patch bps_refusing ?os 3 () ?cmd = Returned PATCH_OK h (Some (i, out, p))"
    and "content out = [0, 0, 0xAB, 0xCD]"
    using execute_patch_ips_run [OF a q c t wf, of bps_refusing "()"]
    unfolding n ov by blast
  then show ?thesis by simp
qed

lemma two_overlapping_hunks_run:
  "\<exists>h i out p.
     execute_patch bps_refusing
       (os_of [(''rom'', [0, 0, 0, 0, 0, 0]), (''out'', []),
               (''ips'', [0x50, 0x41, 0x54, 0x43, 0x48,
                          0, 0, 2, 0, 2, 0x11, 0x22, 0, 0, 3, 0, 2, 0x33, 0x44,
                          0x45, 0x4F, 0x46])])
       4 () \<lparr>input_file = ''rom'', ips_file = ''ips'', output_file = ''out''\<rparr>
       = Returned PATCH_OK h (Some (i, out, p)) \<and>
     length h = 4 \<and> hunk_count (last h) = 2"
proof -
  let ?os = "os_of [(''rom'', [0, 0, 0, 0, 0, 0]), (''out'', []),
               (''ips'', [0x50, 0x41, 0x54, 0x43, 0x48,
                          0, 0, 2, 0, 2, 0x11, 0x22, 0, 0, 3, 0, 2, 0x33, 0x44,
                          0x45, 0x4F, 0x46])]"
  let ?cmd = "\<lparr>input_file = ''rom'', ips_file = ''ips'', output_file = ''out''\<rparr>"
  let ?hs = "[Raw 2 [0x11, 0x22], Raw 3 [0x33, 0x44]]"
  let ?fp = "stream_of [0x50, 0x41, 0x54, 0x43, 0x48,
                          0, 0, 2, 0, 2, 0x11, 0x22, 0, 0, 3, 0, 2, 0x33, 0x44,
                          0x45, 0x4F, 0x46]"
  have a: "?os (input_file ?cmd) = Some (stream_of [0, 0, 0, 0, 0, 0])"
    "?os (output_file ?cmd) = Some (stream_of [])"
    "?os (ips_file ?cmd) = Some ?fp"
    by (simp_all add: os_of_def)
  have q: "faults (stream_of [0, 0, 0, 0, 0, 0]) = []" "faults (stream_of []) = []"
    "faults ?fp = []"
    by (simp_all add: stream_of_def)
  have c: "content ?fp = IPS_EXPECTED_MARKER @ concat (map hunk_encoding ?hs) @ [0x45, 0x4F, 0x46]"
    by (simp add: stream_of_def IPS_EXPECTED_MARKER_def u24_be_def u16_be_def)
  have t: "length [0x45, 0x4F, 0x46 :: byte] < 5" by simp
  have wf: "\<forall>h\<in>set ?hs. hunk_wellformed h" by simp
  have n: "length ?hs + 2 = 4" "(of_nat (length ?hs) :: 64 word) = 2" by simp_all
  show ?thesis
    using execute_patch_ips_run [OF a q c t wf, of bps_refusing "()"]
    unfolding n by blast
qed

section \<open>The records stored in the shared record\<close>

lemma patch_loop_step_cases:
  "patch_loop bps t (Suc n) w =
     (case iter_status (local_status w) of
        HUNK_NEXT \<Rightarrow>
          (case next_hunk bps t (patch_ctx w) (input_stream w) (output_stream w)
                  (patch_stream w) of
             (st, ctx', i', o', p') \<Rightarrow>
               patch_loop bps t n
                 (w\<lparr>local_status :=
                      (if st = HUNK_NEXT
                       then (local_status w)\<lparr>iter_status := st,
                               hunk_count := hunk_count (local_status w) + 1\<rparr>
                       else (local_status w)\<lparr>iter_status := st\<rparr>),
                    shared := shared w @
                      [if st = HUNK_NEXT
                       then (local_status w)\<lparr>iter_status := st,
                               hunk_count := hunk_count (local_status w) + 1\<rparr>
                       else (local_status w)\<lparr>iter_status := st\<rparr>],
                    patch_ctx := ctx', input_stream := i', output_stream := o',
                    patch_stream := p'\<rparr>))
      | HUNK_DONE \<Rightarrow>
          (case end_patch bps t (patch_ctx w) (patch_stream w) of
             (e, ctx', p') \<Rightarrow>
               AtDone (w\<lparr>local_status := (local_status w)\<lparr>err := e\<rparr>,
                         patch_ctx := ctx', patch_stream := p'\<rparr>))
      | HUNK_ERR_IO \<Rightarrow>
          AtDone (w\<lparr>local_status := (local_status w)\<lparr>err := PATCH_ERR_IO\<rparr>\<rparr>)
      | HUNK_NONE \<Rightarrow> patch_loop bps t n w)"
  by (simp add: patch_loop.simps rombp_update_patch_status_def patch_status_copy_id Let_def
      split: rombp_hunk_iter_status.splits prod.splits)

lemma patch_loop_not_done:
  assumes "\<not> is_done (local_status w)" and "\<forall>s\<in>set (shared w). \<not> is_done s"
  shows "\<not> is_done (local_status (run_state (patch_loop bps t n w))) \<and>
         (\<forall>s\<in>set (shared (run_state (patch_loop bps t n w))). \<not> is_done s)"
  using assms
proof (induction n arbitrary: w)
  case 0
  then show ?case by (simp add: patch_loop.simps)
next
  case (Suc n)
  show ?case
  proof (cases "iter_status (local_status w)")
    case HUNK_NONE
    then have "patch_loop bps t (Suc n) w = patch_loop bps t n w"
      by (simp add: patch_loop_step_cases)
    then show ?thesis using Suc.IH [OF Suc.prems] by simp
  next
    case HUNK_NEXT
    obtain st ctx' i' o' p' where nh:
      "next_hunk bps t (patch_ctx w) (input_stream w) (output_stream w) (patch_stream w)
         = (st, ctx', i', o', p')"
      by (cases "next_hunk bps t (patch_ctx w) (input_stream w) (output_stream w)
                   (patch_stream w)") auto
    define ls where "ls = (if st = HUNK_NEXT
                       then (local_status w)\<lparr>iter_status := st,
                               hunk_count := hunk_count (local_status w) + 1\<rparr>
                       else (local_status w)\<lparr>iter_status := st\<rparr>)"
    define w1 where "w1 = w\<lparr>local_status := ls, shared := shared w @ [ls],
                    patch_ctx := ctx', input_stream := i', output_stream := o',
                    patch_stream := p'\<rparr>"
    have step: "patch_loop bps t (Suc n) w = patch_loop bps t n w1"
      unfolding w1_def ls_def by (subst patch_loop_step_cases) (simp add: HUNK_NEXT nh)
    have nd: "\<not> is_done ls" using Suc.prems(1) by (simp add: ls_def)
    have "\<not> is_done (local_status w1)" "\<forall>s\<in>set (shared w1). \<not> is_done s"
      using nd Suc.prems(2) by (simp_all add: w1_def)
    then show ?thesis unfolding step by (rule Suc.IH)
  next
    case HUNK_DONE
    then show ?thesis using Suc.prems
      by (simp add: patch_loop_step_cases split: prod.splits)
  next
    case HUNK_ERR_IO
    then show ?thesis using Suc.prems by (simp add: patch_loop_step_cases)
  qed
qed


lemma done_label_last:
  assumes "\<forall>s\<in>set sh. \<not> is_done s"
  shows "case (done_label l sh fs :: 'a exec) of
     Unfinished w \<Rightarrow> (\<forall>s\<in>set (shared w). \<not> is_done s)
   | Returned e h files \<Rightarrow>
       h \<noteq> [] \<and> is_done (last h) \<and> err (last h) = e \<and>
       (\<forall>s\<in>set (butlast h). \<not> is_done s) \<and>
       (\<forall>init. rombp_read_patch_status init h = last h)"
  using assms
  by (simp add: done_label_def rombp_update_patch_status_def patch_status_copy_id
      rombp_read_patch_status_def)

text \<open>
  C8. In every run of \<open>execute_patch\<close>, with any BPS decoder, and after any number of
  passes of its loop: while the worker has not returned, no record it has stored in
  the shared record has \<open>is_done\<close>; when it has returned, the last record it stored has
  \<open>is_done\<close> and the error returned, and no record stored before has \<open>is_done\<close>. So the
  record with \<open>is_done = true\<close> is the worker's last store to the shared record, and
  every read made by \<open>rombp_read_patch_status\<close> after it yields that record.
\<close>

theorem C8_is_done_is_the_last_record_stored:
  "case execute_patch bps os n ctx cmd of
     Unfinished w \<Rightarrow> (\<forall>s\<in>set (shared w). \<not> is_done s)
   | Returned e h files \<Rightarrow>
       h \<noteq> [] \<and> is_done (last h) \<and> err (last h) = e \<and>
       (\<forall>s\<in>set (butlast h). \<not> is_done s) \<and>
       (\<forall>init. rombp_read_patch_status init h = last h)"
proof (cases "open_patch_files os cmd")
  case (Inl e)
  then show ?thesis
    using done_label_last [of "[]"] by (simp add: execute_patch_def)
next
  case (Inr fs)
  obtain i0 o0 p0 where fs: "fs = (i0, o0, p0)" by (cases fs) auto
  obtain t p1 where dt: "detect_patch_type p0 = (t, p1)"
    by (cases "detect_patch_type p0") auto
  show ?thesis
  proof (cases "t = PATCH_TYPE_UNKNOWN")
    case True
    then show ?thesis
      using done_label_last [of "[]"] by (simp add: execute_patch_def Inr fs dt)
  next
    case known: False
    obtain rc ctx' i1 p2 o1 where sp: "start_patch bps t ctx i0 p1 o0 = (rc, ctx', i1, p2, o1)"
      by (cases "start_patch bps t ctx i0 p1 o0") auto
    show ?thesis
    proof (cases "rc < 0")
      case True
      then show ?thesis
        using done_label_last [of "[]"] known by (simp add: execute_patch_def Inr fs dt sp)
    next
      case started: False
      define w0 where "w0 = \<lparr>local_status =
            patch_status_init\<lparr>err := PATCH_OK, iter_status := HUNK_NEXT\<rparr>,
          shared = [], patch_ctx = ctx', input_stream = i1, output_stream = o1,
          patch_stream = p2\<rparr>"
      have ex: "execute_patch bps os n ctx cmd =
          (case patch_loop bps t n w0 of
             Running w \<Rightarrow> Unfinished w
           | AtDone w \<Rightarrow> done_label (local_status w) (shared w)
                          (Some (input_stream w, output_stream w, patch_stream w)))"
        using known started by (simp add: execute_patch_def Inr fs dt sp w0_def)
      have inv: "\<not> is_done (local_status (run_state (patch_loop bps t n w0))) \<and>
         (\<forall>s\<in>set (shared (run_state (patch_loop bps t n w0))). \<not> is_done s)"
        by (rule patch_loop_not_done) (simp_all add: w0_def patch_status_init_def)
      show ?thesis
      proof (cases "patch_loop bps t n w0")
        case (Running w)
        then show ?thesis using inv by (simp add: ex)
      next
        case (AtDone w)
        then have "\<forall>s\<in>set (shared w). \<not> is_done s" using inv by simp
        from done_label_last [OF this] show ?thesis by (simp add: ex AtDone)
      qed
    qed
  qed
qed


theorem C8_is_done_is_the_last_record_stored_witness:
  "\<exists>h files.
     execute_patch bps_refusing
       (os_of [(''rom'', [0, 0, 0, 0, 0, 0]), (''out'', []),
               (''ips'', [0x50, 0x41, 0x54, 0x43, 0x48,
                          0, 0, 2, 0, 2, 0x11, 0x22, 0, 0, 3, 0, 2, 0x33, 0x44,
                          0x45, 0x4F, 0x46])])
       4 () \<lparr>input_file = ''rom'', ips_file = ''ips'', output_file = ''out''\<rparr>
       = Returned PATCH_OK h files \<and>
     length h = 4 \<and> is_done (h ! 3) \<and> \<not> is_done (h ! 0) \<and> \<not> is_done (h ! 1) \<and>
     \<not> is_done (h ! 2)"
proof -
  let ?E = "execute_patch bps_refusing
       (os_of [(''rom'', [0, 0, 0, 0, 0, 0]), (''out'', []),
               (''ips'', [0x50, 0x41, 0x54, 0x43, 0x48,
                          0, 0, 2, 0, 2, 0x11, 0x22, 0, 0, 3, 0, 2, 0x33, 0x44,
                          0x45, 0x4F, 0x46])])
       4 () \<lparr>input_file = ''rom'', ips_file = ''ips'', output_file = ''out''\<rparr>"
  obtain h i out p where r: "?E = Returned PATCH_OK h (Some (i, out, p))"
    and l: "length h = 4"
    using two_overlapping_hunks_run by blast
  have "case ?E of
     Unfinished w \<Rightarrow> (\<forall>s\<in>set (shared w). \<not> is_done s)
   | Returned e h files \<Rightarrow>
       h \<noteq> [] \<and> is_done (last h) \<and> err (last h) = e \<and>
       (\<forall>s\<in>set (butlast h). \<not> is_done s) \<and>
       (\<forall>init. rombp_read_patch_status init h = last h)"
    by (rule C8_is_done_is_the_last_record_stored)
  then have d: "is_done (last h)" and nd: "\<forall>s\<in>set (butlast h). \<not> is_done s"
    unfolding r by simp_all
  have hn: "h \<noteq> []" using l by auto
  have "last h = h ! 3" using last_conv_nth [OF hn] l by simp
  then have d3: "is_done (h ! 3)" using d by simp
  have "\<And>k. k < 3 \<Longrightarrow> h ! k \<in> set (butlast h)"
  proof -
    fix k :: nat assume k: "k < 3"
    then have "butlast h ! k = h ! k" using l by (simp add: nth_butlast)
    moreover have "butlast h ! k \<in> set (butlast h)" using k l by (intro nth_mem) simp
    ultimately show "h ! k \<in> set (butlast h)" by simp
  qed
  then have "\<not> is_done (h ! 0)" "\<not> is_done (h ! 1)" "\<not> is_done (h ! 2)"
    using nd by simp_all
  then show ?thesis using r l d3 by blast
qed

lemma next_count_snoc:
  "next_count (h @ [s]) = next_count h + (if iter_status s = HUNK_NEXT then 1 else 0)"
  by (simp add: next_count_def)

lemma counts_hunks_snoc:
  "counts_hunks (h @ [s]) = (counts_hunks h \<and> hunk_count s = of_nat (next_count (h @ [s])))"
proof
  assume a: "counts_hunks (h @ [s])"
  have "counts_hunks h"
    unfolding counts_hunks_def
  proof (intro allI impI)
    fix k assume k: "k < length h"
    then have "hunk_count ((h @ [s]) ! k) = of_nat (next_count (take (Suc k) (h @ [s])))"
      using a by (simp add: counts_hunks_def)
    then show "hunk_count (h ! k) = of_nat (next_count (take (Suc k) h))"
      using k by (simp add: nth_append)
  qed
  moreover have "hunk_count ((h @ [s]) ! length h)
                   = of_nat (next_count (take (Suc (length h)) (h @ [s])))"
    using a unfolding counts_hunks_def by (elim allE [of _ "length h"]) simp
  ultimately show "counts_hunks h \<and> hunk_count s = of_nat (next_count (h @ [s]))"
    by simp
next
  assume a: "counts_hunks h \<and> hunk_count s = of_nat (next_count (h @ [s]))"
  show "counts_hunks (h @ [s])"
    unfolding counts_hunks_def
  proof (intro allI impI)
    fix k assume k: "k < length (h @ [s])"
    show "hunk_count ((h @ [s]) ! k) = of_nat (next_count (take (Suc k) (h @ [s])))"
    proof (cases "k < length h")
      case True
      then show ?thesis using a by (simp add: counts_hunks_def nth_append)
    next
      case False
      then have "k = length h" using k by simp
      then show ?thesis using a by simp
    qed
  qed
qed

lemma patch_loop_counts:
  assumes "counts_hunks (shared w)"
    and "hunk_count (local_status w) = of_nat (next_count (shared w))"
  shows "counts_hunks (shared (run_state (patch_loop bps t n w))) \<and>
         hunk_count (local_status (run_state (patch_loop bps t n w)))
           = of_nat (next_count (shared (run_state (patch_loop bps t n w)))) \<and>
         next_count (shared (run_state (patch_loop bps t n w))) \<le> next_count (shared w) + n \<and>
         (\<forall>w'. patch_loop bps t n w = AtDone w' \<longrightarrow> iter_status (local_status w') \<noteq> HUNK_NEXT)"
  using assms
proof (induction n arbitrary: w)
  case 0
  then show ?case by (simp add: patch_loop.simps)
next
  case (Suc n)
  show ?case
  proof (cases "iter_status (local_status w)")
    case HUNK_NONE
    then have "patch_loop bps t (Suc n) w = patch_loop bps t n w"
      by (simp add: patch_loop_step_cases)
    then show ?thesis using Suc.IH [OF Suc.prems] by auto
  next
    case HUNK_NEXT
    obtain st ctx' i' o' p' where nh:
      "next_hunk bps t (patch_ctx w) (input_stream w) (output_stream w) (patch_stream w)
         = (st, ctx', i', o', p')"
      by (cases "next_hunk bps t (patch_ctx w) (input_stream w) (output_stream w)
                   (patch_stream w)") auto
    define ls where "ls = (if st = HUNK_NEXT
                       then (local_status w)\<lparr>iter_status := st,
                               hunk_count := hunk_count (local_status w) + 1\<rparr>
                       else (local_status w)\<lparr>iter_status := st\<rparr>)"
    define w1 where "w1 = w\<lparr>local_status := ls, shared := shared w @ [ls],
                    patch_ctx := ctx', input_stream := i', output_stream := o',
                    patch_stream := p'\<rparr>"
    have step: "patch_loop bps t (Suc n) w = patch_loop bps t n w1"
      unfolding w1_def ls_def by (subst patch_loop_step_cases) (simp add: HUNK_NEXT nh)
    have nc: "next_count (shared w @ [ls])
                = next_count (shared w) + (if st = HUNK_NEXT then 1 else 0)"
      by (simp add: next_count_snoc ls_def)
    have hc: "hunk_count ls = of_nat (next_count (shared w @ [ls]))"
      using Suc.prems(2) by (simp add: nc) (simp add: ls_def)
    have p1: "counts_hunks (shared w1)"
      using Suc.prems(1) hc by (simp add: w1_def counts_hunks_snoc)
    have p2: "hunk_count (local_status w1) = of_nat (next_count (shared w1))"
      using hc by (simp add: w1_def)
    have "next_count (shared w1) \<le> next_count (shared w) + 1"
      using nc by (simp add: w1_def)
    then show ?thesis unfolding step using Suc.IH [OF p1 p2] by auto
  next
    case HUNK_DONE
    then show ?thesis using Suc.prems
      by (simp add: patch_loop_step_cases split: prod.splits)
  next
    case HUNK_ERR_IO
    then show ?thesis using Suc.prems by (simp add: patch_loop_step_cases)
  qed
qed

lemma next_count_take_le: "next_count (take i h) \<le> next_count h"
proof -
  have "next_count h = next_count (take i h @ drop i h)" by simp
  also have "\<dots> = next_count (take i h) + next_count (drop i h)"
    unfolding next_count_def by (simp only: filter_append length_append)
  finally show ?thesis by simp
qed

lemma next_count_take_mono: "i \<le> j \<Longrightarrow> next_count (take i h) \<le> next_count (take j h)"
  using next_count_take_le [of i "take j h"] by (simp add: min_def)

lemma counts_hunks_sorted:
  assumes "counts_hunks h" and "next_count h < 2 ^ 64"
  shows "sorted (map (\<lambda>s. unat (hunk_count s)) h)"
  unfolding sorted_iff_nth_mono
proof (intro allI impI)
  fix i j assume ij: "i \<le> j" and j: "j < length (map (\<lambda>s. unat (hunk_count s)) h)"
  have u: "\<And>k. k < length h \<Longrightarrow> unat (hunk_count (h ! k)) = next_count (take (Suc k) h)"
  proof -
    fix k assume k: "k < length h"
    have "next_count (take (Suc k) h) < 2 ^ 64"
      using next_count_take_le [of "Suc k" h] assms(2) by simp
    then have "unat (of_nat (next_count (take (Suc k) h)) :: 64 word)
                 = next_count (take (Suc k) h)"
      by (simp add: unat_of_nat)
    then show "unat (hunk_count (h ! k)) = next_count (take (Suc k) h)"
      using assms(1) k by (simp add: counts_hunks_def)
  qed
  have "next_count (take (Suc i) h) \<le> next_count (take (Suc j) h)"
    using ij by (intro next_count_take_mono) simp
  then show "map (\<lambda>s. unat (hunk_count s)) h ! i \<le> map (\<lambda>s. unat (hunk_count s)) h ! j"
    using ij j u by simp
qed


lemma done_label_counts:
  assumes "counts_hunks sh" and "hunk_count l = of_nat (next_count sh)"
    and "iter_status l \<noteq> HUNK_NEXT"
  shows "counts_hunks (published (done_label l sh fs :: 'a exec)) \<and>
         next_count (published (done_label l sh fs :: 'a exec)) = next_count sh"
  using assms
  by (simp add: done_label_def rombp_update_patch_status_def patch_status_copy_id
      counts_hunks_snoc next_count_snoc)

lemma counts_hunks_Nil: "counts_hunks []"
  by (simp add: counts_hunks_def)

lemma next_count_Nil: "next_count [] = 0"
  by (simp add: next_count_def)

lemma execute_patch_counts:
  "counts_hunks (published (execute_patch bps os n ctx cmd)) \<and>
   next_count (published (execute_patch bps os n ctx cmd)) \<le> n"
proof (cases "open_patch_files os cmd")
  case (Inl e)
  then show ?thesis
    by (simp add: execute_patch_def done_label_counts counts_hunks_Nil next_count_Nil
        patch_status_init_def)
next
  case (Inr fs)
  obtain i0 o0 p0 where fs: "fs = (i0, o0, p0)" by (cases fs) auto
  obtain t p1 where dt: "detect_patch_type p0 = (t, p1)"
    by (cases "detect_patch_type p0") auto
  show ?thesis
  proof (cases "t = PATCH_TYPE_UNKNOWN")
    case True
    then show ?thesis
      by (simp add: execute_patch_def Inr fs dt done_label_counts counts_hunks_Nil
          next_count_Nil patch_status_init_def)
  next
    case known: False
    obtain rc ctx' i1 p2 o1 where sp: "start_patch bps t ctx i0 p1 o0 = (rc, ctx', i1, p2, o1)"
      by (cases "start_patch bps t ctx i0 p1 o0") auto
    show ?thesis
    proof (cases "rc < 0")
      case True
      then show ?thesis
        using known
        by (simp add: execute_patch_def Inr fs dt sp done_label_counts counts_hunks_Nil
            next_count_Nil patch_status_init_def)
    next
      case started: False
      define w0 where "w0 = \<lparr>local_status =
            patch_status_init\<lparr>err := PATCH_OK, iter_status := HUNK_NEXT\<rparr>,
          shared = [], patch_ctx = ctx', input_stream = i1, output_stream = o1,
          patch_stream = p2\<rparr>"
      have ex: "execute_patch bps os n ctx cmd =
          (case patch_loop bps t n w0 of
             Running w \<Rightarrow> Unfinished w
           | AtDone w \<Rightarrow> done_label (local_status w) (shared w)
                          (Some (input_stream w, output_stream w, patch_stream w)))"
        using known started by (simp add: execute_patch_def Inr fs dt sp w0_def)
      have inv: "counts_hunks (shared (run_state (patch_loop bps t n w0))) \<and>
         hunk_count (local_status (run_state (patch_loop bps t n w0)))
           = of_nat (next_count (shared (run_state (patch_loop bps t n w0)))) \<and>
         next_count (shared (run_state (patch_loop bps t n w0))) \<le> next_count (shared w0) + n \<and>
         (\<forall>w'. patch_loop bps t n w0 = AtDone w' \<longrightarrow> iter_status (local_status w') \<noteq> HUNK_NEXT)"
        by (rule patch_loop_counts)
           (simp_all add: w0_def patch_status_init_def counts_hunks_Nil next_count_Nil)
      show ?thesis
      proof (cases "patch_loop bps t n w0")
        case (Running w)
        then show ?thesis using inv by (simp add: ex w0_def next_count_Nil)
      next
        case (AtDone w)
        then have a: "counts_hunks (shared w)"
          "hunk_count (local_status w) = of_nat (next_count (shared w))"
          "iter_status (local_status w) \<noteq> HUNK_NEXT"
          "next_count (shared w) \<le> n"
          using inv by (simp_all add: w0_def next_count_Nil)
        show ?thesis using a by (simp add: ex AtDone done_label_counts)
      qed
    qed
  qed
qed

text \<open>
  C10. In every run of \<open>execute_patch\<close>, with any BPS decoder, of fewer than \<open>2^64\<close>
  passes of the loop: the hunk count of every record stored in the shared record is
  the number of records stored up to it after an iteration that returned \<open>HUNK_NEXT\<close>
  (the local counter goes up by exactly 1, precisely then, before the record is
  stored), and the hunk counts of the records stored are in non-decreasing order, so
  a later snapshot never carries a smaller count than an earlier one. The bound on the
  passes keeps the 64-bit counter from wrapping around.
\<close>

theorem C10_published_hunk_count_never_decreases:
  assumes "n < 2 ^ 64"
  shows "counts_hunks (published (execute_patch bps os n ctx cmd)) \<and>
         sorted (map (\<lambda>s. unat (hunk_count s)) (published (execute_patch bps os n ctx cmd)))"
proof -
  have c: "counts_hunks (published (execute_patch bps os n ctx cmd))"
    and b: "next_count (published (execute_patch bps os n ctx cmd)) \<le> n"
    using execute_patch_counts [of bps os n ctx cmd] by auto
  have "next_count (published (execute_patch bps os n ctx cmd)) < 2 ^ 64"
    using b assms by simp
  then show ?thesis using c by (simp add: counts_hunks_sorted)
qed

theorem C10_published_hunk_count_never_decreases_witness:
  "(4::nat) < 2 ^ 64 \<and>
   sorted (map (\<lambda>s. unat (hunk_count s))
     (published (execute_patch bps_refusing
       (os_of [(''rom'', [0, 0, 0, 0, 0, 0]), (''out'', []),
               (''ips'', [0x50, 0x41, 0x54, 0x43, 0x48,
                          0, 0, 2, 0, 2, 0x11, 0x22, 0, 0, 3, 0, 2, 0x33, 0x44,
                          0x45, 0x4F, 0x46])])
       4 () \<lparr>input_file = ''rom'', ips_file = ''ips'', output_file = ''out''\<rparr>))) \<and>
   length (published (execute_patch bps_refusing
       (os_of [(''rom'', [0, 0, 0, 0, 0, 0]), (''out'', []),
               (''ips'', [0x50, 0x41, 0x54, 0x43, 0x48,
                          0, 0, 2, 0, 2, 0x11, 0x22, 0, 0, 3, 0, 2, 0x33, 0x44,
                          0x45, 0x4F, 0x46])])
       4 () \<lparr>input_file = ''rom'', ips_file = ''ips'', output_file = ''out''\<rparr>)) = 4 \<and>
   hunk_count (last (published (execute_patch bps_refusing
       (os_of [(''rom'', [0, 0, 0, 0, 0, 0]), (''out'', []),
               (''ips'', [0x50, 0x41, 0x54, 0x43, 0x48,
                          0, 0, 2, 0, 2, 0x11, 0x22, 0, 0, 3, 0, 2, 0x33, 0x44,
                          0x45, 0x4F, 0x46])])
       4 () \<lparr>input_file = ''rom'', ips_file = ''ips'', output_file = ''out''\<rparr>))) = 2"
proof -
  let ?E = "execute_patch bps_refusing
       (os_of [(''rom'', [0, 0, 0, 0, 0, 0]), (''out'', []),
               (''ips'', [0x50, 0x41, 0x54, 0x43, 0x48,
                          0, 0, 2, 0, 2, 0x11, 0x22, 0, 0, 3, 0, 2, 0x33, 0x44,
                          0x45, 0x4F, 0x46])])
       4 () \<lparr>input_file = ''rom'', ips_file = ''ips'', output_file = ''out''\<rparr>"
  have b: "(4::nat) < 2 ^ 64" by simp
  obtain h i out p where r: "?E = Returned PATCH_OK h (Some (i, out, p))"
    and l: "length h = 4" and c: "hunk_count (last h) = 2"
    using two_overlapping_hunks_run by blast
  have "sorted (map (\<lambda>s. unat (hunk_count s)) (published ?E))"
    by (rule C10_published_hunk_count_never_decreases [OF b, THEN conjunct2])
  moreover have "length (published ?E) = 4" "hunk_count (last (published ?E)) = 2"
    using l c by (simp_all add: r)
  ultimately show ?thesis using b by blast
qed

end
